theory Spec2Isabelle
  imports Main "HOL-Library.Sublist" "HOL-Library.List_Lexorder" "HOL-Library.Char_ord" "HOL-Library.AList"
begin

section \<open>JavaScript values\<close>

text \<open>
  Documents are the values that \<open>JSON.parse\<close> and the store's JSON value encoding
  produce, together with \<open>undefined\<close>, which the code meets as the value of an
  absent property and as the result of a lookup that misses. Objects keep the insertion
  order of their properties (no property name is taken to be an array index, which
  JavaScript would list first). Strings are ASCII text. Numbers are the integers that a
  JavaScript number holds exactly and that \<open>String\<close> prints as their decimal
  digits: the safe integers, below 9007199254740992 in magnitude. Fractions and larger
  numbers are not values of the model; \<open>number n\<close> is the value of a literal
  \<open>n\<close> in that range (and zero for any other \<open>n\<close>, which no document holds).
\<close>

typedef safe_integer = "{n :: int. - 9007199254740992 < n \<and> n < 9007199254740992}"
  by (rule exI[of _ 0]) simp

setup_lifting type_definition_safe_integer

lift_definition number :: "int \<Rightarrow> safe_integer" is
  "\<lambda>n. if - 9007199254740992 < n \<and> n < 9007199254740992 then n else 0"
  by simp

lift_definition int_of :: "safe_integer \<Rightarrow> int" is "\<lambda>n. n" .

instantiation safe_integer :: equal
begin

definition equal_safe_integer :: "safe_integer \<Rightarrow> safe_integer \<Rightarrow> bool" where
  "equal_safe_integer a b = (int_of a = int_of b)"

instance
  by standard (simp add: equal_safe_integer_def int_of.rep_eq Rep_safe_integer_inject)

end

datatype json =
    JUndefined
  | JNull
  | JBool bool
  | JNum safe_integer
  | JStr string
  | JArr "json list"
  | JObj "(string \<times> json) list"

datatype error =
    TypeError
  | DuplicateKey json
  | InvalidKey
  | InvalidValue
  | ParseError
  | HookError string

text \<open>
  The source runs as an ES module, hence in strict mode. Reading a property of
  \<open>undefined\<close> or \<open>null\<close> raises a TypeError (\<open>getp\<close>), reading one of any
  other value that does not have it yields \<open>undefined\<close> (\<open>field\<close>). Assigning
  a property to a string, number or boolean raises a TypeError (\<open>setp\<close>). A named
  property assigned to an array is not represented: JSON serialisation drops it, and the
  code reads back only the hierarchy fields it has just set to \<open>[]\<close> or
  \<open>null\<close>, for which an absent property behaves alike. Documents are trees (the
  sharing that YAML aliases can create is left out), so that the in-place updates of the
  source can be written as values passed on.
\<close>

fun truthy :: "json \<Rightarrow> bool" where
  "truthy JUndefined = False"
| "truthy JNull = False"
| "truthy (JBool b) = b"
| "truthy (JNum n) = (int_of n \<noteq> 0)"
| "truthy (JStr s) = (s \<noteq> [])"
| "truthy (JArr xs) = True"
| "truthy (JObj kvs) = True"

fun is_array :: "json \<Rightarrow> bool" where
  "is_array (JArr xs) = True"
| "is_array v = False"

fun is_object :: "json \<Rightarrow> bool" where
  "is_object (JObj kvs) = True"
| "is_object v = False"

fun elements :: "json \<Rightarrow> json list" where
  "elements (JArr xs) = xs"
| "elements v = []"

definition nullish :: "json \<Rightarrow> bool" where
  "nullish v = (v = JUndefined \<or> v = JNull)"

definition primitive :: "json \<Rightarrow> bool" where
  "primitive v = (\<not> is_array v \<and> \<not> is_object v)"

fun field :: "json \<Rightarrow> string \<Rightarrow> json" where
  "field (JObj kvs) k = (case map_of kvs k of Some v \<Rightarrow> v | None \<Rightarrow> JUndefined)"
| "field v k = JUndefined"

definition getp :: "json \<Rightarrow> string \<Rightarrow> error + json" where
  "getp v k = (if nullish v then Inl TypeError else Inr (field v k))"

fun put_field :: "json \<Rightarrow> string \<Rightarrow> json \<Rightarrow> json" where
  "put_field (JObj kvs) k v = JObj (AList.update k v kvs)"
| "put_field d k v = d"

fun setp :: "json \<Rightarrow> string \<Rightarrow> json \<Rightarrow> error + json" where
  "setp (JObj kvs) k v = Inr (JObj (AList.update k v kvs))"
| "setp (JArr xs) k v = Inr (JArr xs)"
| "setp d k v = Inl TypeError"

fun delete_field :: "json \<Rightarrow> string \<Rightarrow> json" where
  "delete_field (JObj kvs) k = JObj (AList.delete k kvs)"
| "delete_field d k = d"

text \<open>
  The store encodes values as JSON: a property whose value is \<open>undefined\<close> is
  dropped and an \<open>undefined\<close> array element becomes \<open>null\<close>.
\<close>

fun json_encode :: "json \<Rightarrow> json" where
  "json_encode (JArr xs) = JArr (map (\<lambda>x. if x = JUndefined then JNull else json_encode x) xs)"
| "json_encode (JObj kvs) =
     JObj (map (\<lambda>(k, v). (k, json_encode v)) (filter (\<lambda>(k, v). v \<noteq> JUndefined) kvs))"
| "json_encode v = v"

fun string_of_nat :: "nat \<Rightarrow> string" where
  "string_of_nat n =
     (if n < 10 then [''0123456789'' ! n]
      else string_of_nat (n div 10) @ [''0123456789'' ! (n mod 10)])"

definition string_of_int :: "int \<Rightarrow> string" where
  "string_of_int i = (if i < 0 then CHR ''-'' # string_of_nat (nat (- i)) else string_of_nat (nat i))"

fun intercalate :: "string \<Rightarrow> string list \<Rightarrow> string" where
  "intercalate sep [] = []"
| "intercalate sep [x] = x"
| "intercalate sep (x # y # ys) = x @ sep @ intercalate sep (y # ys)"

text \<open>The string that a template literal or \<open>Array.prototype.join\<close> makes of a value.\<close>

fun to_string :: "json \<Rightarrow> string" where
  "to_string JUndefined = ''undefined''"
| "to_string JNull = ''null''"
| "to_string (JBool b) = (if b then ''true'' else ''false'')"
| "to_string (JNum n) = string_of_int (int_of n)"
| "to_string (JStr s) = s"
| "to_string (JArr xs) = intercalate '','' (map (\<lambda>x. if nullish x then [] else to_string x) xs)"
| "to_string (JObj kvs) = ''[object Object]''"

fun split_on :: "char \<Rightarrow> string \<Rightarrow> string list" where
  "split_on c [] = [[]]"
| "split_on c (x # xs) =
     (if x = c then [] # split_on c xs
      else (case split_on c xs of [] \<Rightarrow> [[x]] | w # ws \<Rightarrow> (x # w) # ws))"

definition nth_or_undefined :: "string list \<Rightarrow> nat \<Rightarrow> json" where
  "nth_or_undefined xs i = (if i < length xs then JStr (xs ! i) else JUndefined)"

definition keyJoin :: "json list \<Rightarrow> string" where
  "keyJoin args = intercalate ''.'' (map to_string (filter truthy args))"

text \<open>
  On ASCII text the NFD normalisation of \<open>getSafeFilename\<close> is the identity and
  the range of combining marks that its pattern keeps is empty, so every character that is
  not a letter or a digit becomes an underscore. A name that is not a string has no
  \<open>normalize\<close> method: a TypeError.
\<close>

definition safe_char :: "char \<Rightarrow> bool" where
  "safe_char c = ((CHR ''a'' \<le> c \<and> c \<le> CHR ''z'') \<or> (CHR ''A'' \<le> c \<and> c \<le> CHR ''Z'')
     \<or> (CHR ''0'' \<le> c \<and> c \<le> CHR ''9''))"

definition getSafeFilename :: "json \<Rightarrow> error + string" where
  "getSafeFilename filename =
     (case filename of
        JStr s \<Rightarrow> Inr (map (\<lambda>c. if safe_char c then c else CHR ''_'') s)
      | _ \<Rightarrow> Inl TypeError)"


section \<open>The hierarchy schema\<close>

text \<open>
  The table \<open>HIERARCHY\<close> of the source, in its order. An array in the source marks a
  collection-valued field (\<open>True\<close>), an object a singular one (\<open>False\<close>). A
  collection without an entry has no embedded fields.
\<close>

definition HIERARCHY :: "(string \<times> (string \<times> bool) list) list" where
  "HIERARCHY =
    [(''actors'', [(''items'', True), (''effects'', True)]),
     (''cards'', [(''cards'', True)]),
     (''combats'', [(''combatants'', True)]),
     (''delta'', [(''items'', True), (''effects'', True)]),
     (''items'', [(''effects'', True)]),
     (''journal'', [(''pages'', True), (''categories'', True)]),
     (''playlists'', [(''sounds'', True)]),
     (''regions'', [(''behaviors'', True)]),
     (''tables'', [(''results'', True)]),
     (''tokens'', [(''delta'', False)]),
     (''scenes'',
        [(''drawings'', True), (''tokens'', True), (''lights'', True), (''notes'', True),
         (''regions'', True), (''sounds'', True), (''templates'', True), (''tiles'', True),
         (''walls'', True)])]"

definition hierarchy_entries :: "string \<Rightarrow> (string \<times> bool) list" where
  "hierarchy_entries collection =
     (case map_of HIERARCHY collection of Some fs \<Rightarrow> fs | None \<Rightarrow> [])"

section \<open>mapHierarchy\<close>

fun map_result :: "('a \<Rightarrow> error + 'b) \<Rightarrow> 'a list \<Rightarrow> error + 'b list" where
  "map_result f [] = Inr []"
| "map_result f (x # xs) =
     (case f x of
        Inl e \<Rightarrow> Inl e
      | Inr y \<Rightarrow> (case map_result f xs of Inl e \<Rightarrow> Inl e | Inr ys \<Rightarrow> Inr (y # ys)))"

definition mapField ::
  "json \<Rightarrow> string \<times> bool \<Rightarrow> (json \<Rightarrow> string \<Rightarrow> error + json) \<Rightarrow> error + json" where
  "mapField doc entry fn =
     (case entry of (embeddedCollectionName, isArr) \<Rightarrow>
       (case getp doc embeddedCollectionName of
          Inl e \<Rightarrow> Inl e
        | Inr embeddedValue \<Rightarrow>
            if isArr then
              (if is_array embeddedValue then
                 (case map_result (\<lambda>entry. fn entry embeddedCollectionName) (elements embeddedValue) of
                    Inl e \<Rightarrow> Inl e
                  | Inr vs \<Rightarrow> setp doc embeddedCollectionName (JArr vs))
               else setp doc embeddedCollectionName (JArr []))
            else
              (if truthy embeddedValue then
                 (case fn embeddedValue embeddedCollectionName of
                    Inl e \<Rightarrow> Inl e
                  | Inr v \<Rightarrow> setp doc embeddedCollectionName v)
               else setp doc embeddedCollectionName JNull)))"

fun mapFields ::
  "(string \<times> bool) list \<Rightarrow> json \<Rightarrow> (json \<Rightarrow> string \<Rightarrow> error + json) \<Rightarrow> error + json" where
  "mapFields [] doc fn = Inr doc"
| "mapFields (entry # rest) doc fn =
     (case mapField doc entry fn of Inl e \<Rightarrow> Inl e | Inr doc' \<Rightarrow> mapFields rest doc' fn)"

definition mapHierarchy ::
  "json \<Rightarrow> string \<Rightarrow> (json \<Rightarrow> string \<Rightarrow> error + json) \<Rightarrow> error + json" where
  "mapHierarchy doc collection fn = mapFields (hierarchy_entries collection) doc fn"

section \<open>applyHierarchy\<close>

text \<open>
  A visitor takes the document, its collection, the options of the level above and the
  state of the run; it fails, or returns the document as it has left it, the options for
  the next level and the new state. The function \<open>apply\<close> of the source and its two
  loops are the three forms of \<open>walk\<close>: \<open>Apply\<close> calls the visitor on a node
  and goes on with the fields of the schema, \<open>Fields\<close> is the loop over the embedded
  fields that remain, and \<open>Elems\<close> the loop over the elements of an embedded array.
  The result carries the document with its embedded documents as the visits have left
  them. Nothing bounds the recursion for an arbitrary visitor, so the walk is a partial
  function: \<open>None\<close> stands for a walk that does not return.
\<close>

datatype walk =
    Apply json string json
  | Fields "(string \<times> bool) list" json json
  | Elems "json list" string json

type_synonym 's visitor = "json \<Rightarrow> string \<Rightarrow> json \<Rightarrow> 's \<Rightarrow> error + (json \<times> json \<times> 's)"

definition default_options :: "json \<Rightarrow> json" where
  "default_options options = (if options = JUndefined then JObj [] else options)"

definition nullish_default :: "json \<Rightarrow> json" where
  "nullish_default newOptions = (if nullish newOptions then JObj [] else newOptions)"

definition embedded_walk :: "bool \<Rightarrow> json \<Rightarrow> string \<Rightarrow> json \<Rightarrow> error + walk option" where
  "embedded_walk isArr doc name options =
     (case getp doc name of
        Inl e \<Rightarrow> Inl e
      | Inr embeddedValue \<Rightarrow>
          if isArr \<and> is_array embeddedValue then Inr (Some (Elems (elements embeddedValue) name options))
          else if truthy embeddedValue then Inr (Some (Apply embeddedValue name options))
          else Inr None)"

definition and_then :: "('e + 'a) option \<Rightarrow> ('a \<Rightarrow> ('e + 'b) option) \<Rightarrow> ('e + 'b) option" where
  "and_then m f = Option.bind m (\<lambda>r. case r of Inl e \<Rightarrow> Some (Inl e) | Inr x \<Rightarrow> f x)"

lemma and_then_mono [partial_function_mono]:
  assumes mf: "mono_option B" and mg: "\<And>y. mono_option (\<lambda>f. C y f)"
  shows "mono_option (\<lambda>f. and_then (B f) (\<lambda>y. C y f))"
  unfolding and_then_def
proof (rule bind_mono [OF mf])
  fix r :: "'c + 'd"
  show "mono_option (\<lambda>f. case r of Inl e \<Rightarrow> Some (Inl e) | Inr x \<Rightarrow> C x f)"
    by (cases r) (simp_all add: mg option.const_mono)
qed

partial_function (option) applyHierarchy ::
  "'s visitor \<Rightarrow> walk \<Rightarrow> 's \<Rightarrow> (error + json \<times> 's) option"
where
  "applyHierarchy fn t s =
    (case t of
       Apply doc collection options \<Rightarrow>
         and_then (Some (fn doc collection (default_options options) s))
           (\<lambda>(doc', newOptions, s').
              applyHierarchy fn (Fields (hierarchy_entries collection) doc' (nullish_default newOptions)) s')
     | Fields [] doc options \<Rightarrow> Some (Inr (doc, s))
     | Fields ((name, isArr) # rest) doc options \<Rightarrow>
         (case embedded_walk isArr doc name options of
            Inl e \<Rightarrow> Some (Inl e)
          | Inr None \<Rightarrow> applyHierarchy fn (Fields rest doc options) s
          | Inr (Some child) \<Rightarrow>
              and_then (applyHierarchy fn child s)
                (\<lambda>(v, s'). applyHierarchy fn (Fields rest (put_field doc name v) options) s'))
     | Elems [] name options \<Rightarrow> Some (Inr (JArr [], s))
     | Elems (x # rest) name options \<Rightarrow>
         and_then (applyHierarchy fn (Apply x name options) s)
           (\<lambda>(x', s').
              and_then (applyHierarchy fn (Elems rest name options) s')
                (\<lambda>(v, s''). Some (Inr (JArr (x' # elements v), s'')))))"

declare applyHierarchy.simps [code]

section \<open>The key-value store\<close>

text \<open>
  The store is classic-level with string keys and JSON values (package.json asks for
  version 2): the entries in ascending order of their keys. Reading a key that is not
  there yields \<open>undefined\<close>, without an error. A chained batch collects puts and
  deletes, in the order of the calls, and is applied as a whole by \<open>batch_write\<close>.
  A put is rejected when its key or its value is \<open>undefined\<close> or \<open>null\<close>;
  any other key is encoded as text, so that the entry is stored under \<open>String(key)\<close>,
  and the value is encoded as JSON.
\<close>

type_synonym store = "(string \<times> json) list"

datatype batch_op = Put string json | Del string

definition db_get :: "store \<Rightarrow> string \<Rightarrow> json" where
  "db_get db key = (case map_of db key of Some v \<Rightarrow> v | None \<Rightarrow> JUndefined)"

definition db_keys :: "store \<Rightarrow> string list" where
  "db_keys db = map fst db"

definition store_del :: "string \<Rightarrow> store \<Rightarrow> store" where
  "store_del key db = filter (\<lambda>(k, v). k \<noteq> key) db"

definition store_put :: "string \<Rightarrow> json \<Rightarrow> store \<Rightarrow> store" where
  "store_put key value db = insort_key fst (key, value) (store_del key db)"

fun batch_apply :: "batch_op \<Rightarrow> store \<Rightarrow> store" where
  "batch_apply (Put key value) db = store_put key value db"
| "batch_apply (Del key) db = store_del key db"

definition batch_write :: "batch_op list \<Rightarrow> store \<Rightarrow> store" where
  "batch_write ops db = fold batch_apply ops db"

definition batch_put :: "json \<Rightarrow> json \<Rightarrow> batch_op list \<Rightarrow> error + batch_op list" where
  "batch_put key value batch =
     (if nullish key then Inl InvalidKey
      else if nullish value then Inl InvalidValue
      else Inr (batch @ [Put (to_string key) (json_encode value)]))"

definition store_ok :: "store \<Rightarrow> bool" where
  "store_ok db = (sorted (db_keys db) \<and> distinct (db_keys db))"

section \<open>Compiling\<close>

text \<open>
  A source file is its path and the document that parsing its contents gives, if any. The
  hook \<open>transformEntry\<close> may fail, change the document, and ask for it to be
  discarded. Logging has no effect on the result and is left out. A run returns its
  outcome, an error or the compaction that was requested, and the store after the run.
  The set of seen keys holds the keys as the documents carry them. A \<open>Set\<close>
  compares strings, numbers and the other primitive values by value, and arrays and objects
  by identity; documents being trees, an array or object met as a key is never one that
  the set already holds (\<open>set_has\<close>).
\<close>

record pack_state =
  seenKeys :: "json set"
  batch :: "batch_op list"

datatype verdict = Keep | Discard

type_synonym entry_transformer = "json \<Rightarrow> error + (json \<times> verdict)"

record source_file =
  path :: string
  parsed :: "json option"

definition set_has :: "json set \<Rightarrow> json \<Rightarrow> bool" where
  "set_has seen v = (primitive v \<and> v \<in> seen)"

definition packVisitor :: "pack_state visitor" where
  "packVisitor doc collection options st =
     (case getp doc ''_key'' of
        Inl e \<Rightarrow> Inl e
      | Inr key \<Rightarrow>
          let doc1 = delete_field doc ''_key'' in
          if set_has (seenKeys st) key then Inl (DuplicateKey key)
          else
            let st1 = st\<lparr>seenKeys := insert key (seenKeys st)\<rparr> in
            (case mapHierarchy doc1 collection (\<lambda>d c. getp d ''_id'') of
               Inl e \<Rightarrow> Inl e
             | Inr value \<Rightarrow>
                 (case batch_put key value (batch st1) of
                    Inl e \<Rightarrow> Inl e
                  | Inr b \<Rightarrow> Inr (doc1, JUndefined, st1\<lparr>batch := b\<rparr>))))"

definition packDoc :: "json \<Rightarrow> string \<Rightarrow> pack_state \<Rightarrow> (error + json \<times> pack_state) option" where
  "packDoc doc collection st = applyHierarchy packVisitor (Apply doc collection JUndefined) st"

definition run_transform :: "entry_transformer option \<Rightarrow> json \<Rightarrow> error + (json \<times> verdict)" where
  "run_transform transformEntry doc =
     (case transformEntry of None \<Rightarrow> Inr (doc, Keep) | Some t \<Rightarrow> t doc)"

definition packFile ::
  "entry_transformer option \<Rightarrow> source_file \<Rightarrow> pack_state \<Rightarrow> (error + pack_state) option" where
  "packFile transformEntry file st =
     (case parsed file of
        None \<Rightarrow> Some (Inl ParseError)
      | Some doc \<Rightarrow>
          (case getp doc ''_key'' of
             Inl e \<Rightarrow> Some (Inl e)
           | Inr (JStr k) \<Rightarrow>
               let collection = to_string (nth_or_undefined (split_on CHR ''!'' k) 1) in
               (case run_transform transformEntry doc of
                  Inl e \<Rightarrow> Some (Inl e)
                | Inr (doc', Discard) \<Rightarrow> Some (Inr st)
                | Inr (doc', Keep) \<Rightarrow>
                    and_then (packDoc doc' collection st) (\<lambda>(d, st'). Some (Inr st')))
           | Inr _ \<Rightarrow> Some (Inl TypeError)))"

fun packFiles ::
  "entry_transformer option \<Rightarrow> source_file list \<Rightarrow> pack_state \<Rightarrow> (error + pack_state) option" where
  "packFiles transformEntry [] st = Some (Inr st)"
| "packFiles transformEntry (file # files) st =
     and_then (packFile transformEntry file st) (\<lambda>st'. packFiles transformEntry files st')"

definition stageDeletes :: "store \<Rightarrow> pack_state \<Rightarrow> batch_op list" where
  "stageDeletes db st =
     batch st @ map Del (filter (\<lambda>key. \<not> set_has (seenKeys st) (JStr key)) (db_keys db))"

definition truthy_key :: "string option \<Rightarrow> bool" where
  "truthy_key k = (case k of None \<Rightarrow> False | Some s \<Rightarrow> s \<noteq> [])"

definition compactClassicLevel :: "store \<Rightarrow> (string \<times> string) option" where
  "compactClassicLevel db =
     (let firstKey = (case db_keys db of [] \<Rightarrow> None | k # ks \<Rightarrow> Some k);
          lastKey = (case rev (db_keys db) of [] \<Rightarrow> None | k # ks \<Rightarrow> Some k)
      in if truthy_key firstKey \<and> truthy_key lastKey
         then (case (firstKey, lastKey) of (Some f, Some l) \<Rightarrow> Some (f, l) | _ \<Rightarrow> None)
         else None)"

definition initial_state :: pack_state where
  "initial_state = \<lparr>seenKeys = {}, batch = []\<rparr>"

definition compileClassicLevel ::
  "entry_transformer option \<Rightarrow> source_file list \<Rightarrow> store \<Rightarrow>
     ((error + (string \<times> string) option) \<times> store) option" where
  "compileClassicLevel transformEntry files db =
     (case packFiles transformEntry files initial_state of
        None \<Rightarrow> None
      | Some (Inl e) \<Rightarrow> Some (Inl e, db)
      | Some (Inr st) \<Rightarrow>
          let db' = batch_write (stageDeletes db st) db
          in Some (Inr (compactClassicLevel db'), db'))"

section \<open>Extracting\<close>

text \<open>
  \<open>path.join\<close> of Node is a parameter, \<open>path_join\<close>. The name hooks map a
  document and the folder path handed to them to a name, or to nothing. The result of an
  extraction is the list of the calls of \<open>serializeDocument\<close>, in order: the file
  name and the document handed over for writing. The folder pre-pass follows parent
  references for as long as they resolve, which need not end when the references form a
  cycle. The folder map is keyed by the \<open>_id\<close> of the folder documents and
  looked up by value, as a \<open>Map\<close> does for strings and the other primitive values;
  the statements about it are for such ids.
\<close>

record folder_entry =
  fname :: string
  fparent :: json
  fpath :: string

type_synonym folders_map = "(json \<times> folder_entry) list"

type_synonym name_transformer = "json \<Rightarrow> string option \<Rightarrow> string option"

record extract_options =
  yaml :: bool
  folders :: bool
  transformEntry :: "entry_transformer option"
  transformName :: "name_transformer option"
  transformFolderName :: "name_transformer option"

definition run_name_transform :: "name_transformer option \<Rightarrow> json \<Rightarrow> string option \<Rightarrow> string" where
  "run_name_transform t doc folder =
     (case t of None \<Rightarrow> [] | Some f \<Rightarrow> (case f doc folder of None \<Rightarrow> [] | Some n \<Rightarrow> n))"

definition folderName :: "name_transformer option \<Rightarrow> string \<Rightarrow> json \<Rightarrow> error + string" where
  "folderName t key doc =
     (let name = run_name_transform t doc None in
      if name \<noteq> [] then Inr name
      else
        (case getp doc ''name'' of
           Inl e \<Rightarrow> Inl e
         | Inr n \<Rightarrow>
             if truthy n then
               (case getSafeFilename n of
                  Inl e \<Rightarrow> Inl e
                | Inr safe \<Rightarrow>
                    (case getp doc ''_id'' of
                       Inl e \<Rightarrow> Inl e
                     | Inr i \<Rightarrow> Inr (safe @ ''_'' @ to_string i)))
             else Inr key))"

fun collectFolders :: "name_transformer option \<Rightarrow> store \<Rightarrow> folders_map \<Rightarrow> error + folders_map" where
  "collectFolders t [] fm = Inr fm"
| "collectFolders t ((key, doc) # rest) fm =
     (if \<not> prefix ''!folders'' key then collectFolders t rest fm
      else
        (case folderName t key doc of
           Inl e \<Rightarrow> Inl e
         | Inr name \<Rightarrow>
             (case getp doc ''_id'' of
                Inl e \<Rightarrow> Inl e
              | Inr i \<Rightarrow>
                  (case getp doc ''folder'' of
                     Inl e \<Rightarrow> Inl e
                   | Inr parent \<Rightarrow>
                       collectFolders t rest
                         (AList.update i \<lparr>fname = name, fparent = parent, fpath = []\<rparr> fm)))))"

partial_function (option) parentPath ::
  "(string \<Rightarrow> string \<Rightarrow> string) \<Rightarrow> folders_map \<Rightarrow> folder_entry option \<Rightarrow> string \<Rightarrow> string option"
where
  "parentPath path_join fm parent p =
     (case parent of
        None \<Rightarrow> Some p
      | Some e \<Rightarrow> parentPath path_join fm (map_of fm (fparent e)) (path_join (fname e) p))"

declare parentPath.simps [code]

definition folderPath ::
  "(string \<Rightarrow> string \<Rightarrow> string) \<Rightarrow> folders_map \<Rightarrow> folder_entry \<Rightarrow> string option" where
  "folderPath path_join fm folder = parentPath path_join fm (map_of fm (fparent folder)) (fname folder)"

fun resolveFolders ::
  "(string \<Rightarrow> string \<Rightarrow> string) \<Rightarrow> folders_map \<Rightarrow> folders_map \<Rightarrow> folders_map option" where
  "resolveFolders path_join fm [] = Some []"
| "resolveFolders path_join fm ((i, folder) # rest) =
     (case folderPath path_join fm folder of
        None \<Rightarrow> None
      | Some p \<Rightarrow>
          (case resolveFolders path_join fm rest of
             None \<Rightarrow> None
           | Some rest' \<Rightarrow> Some ((i, folder\<lparr>fpath := p\<rparr>) # rest')))"

definition buildFolders ::
  "(string \<Rightarrow> string \<Rightarrow> string) \<Rightarrow> extract_options \<Rightarrow> store \<Rightarrow> (error + folders_map) option" where
  "buildFolders path_join opts db =
     (if folders opts then
        (case collectFolders (transformFolderName opts) db [] of
           Inl e \<Rightarrow> Some (Inl e)
         | Inr fm \<Rightarrow> (case resolveFolders path_join fm fm of None \<Rightarrow> None | Some fm' \<Rightarrow> Some (Inr fm')))
      else Some (Inr []))"

definition child_key :: "string \<Rightarrow> string \<Rightarrow> string \<Rightarrow> json \<Rightarrow> string" where
  "child_key sublevel ident embeddedCollectionName embeddedId =
     ''!'' @ sublevel @ ''.'' @ embeddedCollectionName @ ''!'' @ ident @ ''.'' @ to_string embeddedId"

definition unpackVisitor :: "store \<Rightarrow> unit visitor" where
  "unpackVisitor db doc collection options u =
     (case getp (default_options options) ''sublevelPrefix'' of
        Inl e \<Rightarrow> Inl e
      | Inr sublevelPrefix \<Rightarrow>
          let idPrefix = field (default_options options) ''idPrefix'';
              sublevel = keyJoin [sublevelPrefix, JStr collection]
          in
          (case getp doc ''_id'' of
             Inl e \<Rightarrow> Inl e
           | Inr i \<Rightarrow>
               let ident = keyJoin [idPrefix, i] in
               (case setp doc ''_key'' (JStr (''!'' @ sublevel @ ''!'' @ ident)) of
                  Inl e \<Rightarrow> Inl e
                | Inr doc1 \<Rightarrow>
                    (case mapHierarchy doc1 collection
                            (\<lambda>embeddedId embeddedCollectionName.
                               Inr (db_get db (child_key sublevel ident embeddedCollectionName embeddedId))) of
                       Inl e \<Rightarrow> Inl e
                     | Inr doc2 \<Rightarrow>
                         Inr (doc2,
                              JObj [(''sublevelPrefix'', JStr sublevel), (''idPrefix'', JStr ident)],
                              u)))))"

definition unpackDoc :: "store \<Rightarrow> json \<Rightarrow> string \<Rightarrow> (error + json \<times> unit) option" where
  "unpackDoc db doc collection = applyHierarchy (unpackVisitor db) (Apply doc collection JUndefined) ()"

definition extension :: "extract_options \<Rightarrow> string" where
  "extension opts = (if yaml opts then ''yml'' else ''json'')"

definition defaultName ::
  "(string \<Rightarrow> string \<Rightarrow> string) \<Rightarrow> extract_options \<Rightarrow> folders_map \<Rightarrow> string \<Rightarrow> json \<Rightarrow> json \<Rightarrow> error + string" where
  "defaultName path_join opts fm key ident doc =
     (case (if prefix ''!folders'' key
            then (case getp doc ''_id'' of Inl e \<Rightarrow> Inl e | Inr i \<Rightarrow> Inr (map_of fm i))
            else Inr None) of
        Inl e \<Rightarrow> Inl e
      | Inr (Some folder) \<Rightarrow> Inr (path_join (fname folder) (''_Folder.'' @ extension opts))
      | Inr None \<Rightarrow>
          (case getp doc ''name'' of
             Inl e \<Rightarrow> Inl e
           | Inr n \<Rightarrow>
               if truthy n then
                 (case getSafeFilename n of
                    Inl e \<Rightarrow> Inl e
                  | Inr safe \<Rightarrow> Inr (safe @ ''_'' @ to_string ident @ ''.'' @ extension opts))
               else Inr (key @ ''.'' @ extension opts)))"

definition outputName ::
  "(string \<Rightarrow> string \<Rightarrow> string) \<Rightarrow> extract_options \<Rightarrow> folders_map \<Rightarrow> string \<Rightarrow> json \<Rightarrow> json \<Rightarrow> error + string" where
  "outputName path_join opts fm key ident doc =
     (case getp doc ''folder'' of
        Inl e \<Rightarrow> Inl e
      | Inr folderRef \<Rightarrow>
          let folder = (case map_of fm folderRef of None \<Rightarrow> None | Some f \<Rightarrow> Some (fpath f));
              name = run_name_transform (transformName opts) doc folder
          in
          if name \<noteq> [] then Inr name
          else
            (case defaultName path_join opts fm key ident doc of
               Inl e \<Rightarrow> Inl e
             | Inr name' \<Rightarrow>
                 (case folder of
                    None \<Rightarrow> Inr name'
                  | Some p \<Rightarrow> if p \<noteq> [] then Inr (path_join p name') else Inr name')))"

type_synonym written = "(string \<times> json) list"

definition serializeDocument :: "json \<Rightarrow> string \<Rightarrow> written \<Rightarrow> written" where
  "serializeDocument doc filename out = out @ [(filename, doc)]"

definition extractEntry ::
  "(string \<Rightarrow> string \<Rightarrow> string) \<Rightarrow> string \<Rightarrow> extract_options \<Rightarrow> folders_map \<Rightarrow> store \<Rightarrow>
     string \<times> json \<Rightarrow> written \<Rightarrow> (error + written) option" where
  "extractEntry path_join dest opts fm db entry out =
     (case entry of (key, doc) \<Rightarrow>
       (case nth_or_undefined (split_on CHR ''!'' key) 1 of
          JStr collection \<Rightarrow>
            if CHR ''.'' \<in> set collection then Some (Inr out)
            else
              and_then (unpackDoc db doc collection)
                (\<lambda>(doc1, u).
                   (case run_transform (transformEntry opts) doc1 of
                      Inl e \<Rightarrow> Some (Inl e)
                    | Inr (doc2, Discard) \<Rightarrow> Some (Inr out)
                    | Inr (doc2, Keep) \<Rightarrow>
                        (case outputName path_join opts fm key
                                (nth_or_undefined (split_on CHR ''!'' key) 2) doc2 of
                           Inl e \<Rightarrow> Some (Inl e)
                         | Inr name \<Rightarrow>
                             Some (Inr (serializeDocument doc2 (path_join dest name) out)))))
        | _ \<Rightarrow> Some (Inl TypeError)))"

fun extractEntries ::
  "(string \<Rightarrow> string \<Rightarrow> string) \<Rightarrow> string \<Rightarrow> extract_options \<Rightarrow> folders_map \<Rightarrow> store \<Rightarrow>
     store \<Rightarrow> written \<Rightarrow> (error + written) option" where
  "extractEntries path_join dest opts fm db [] out = Some (Inr out)"
| "extractEntries path_join dest opts fm db (entry # rest) out =
     and_then (extractEntry path_join dest opts fm db entry out)
       (\<lambda>out'. extractEntries path_join dest opts fm db rest out')"

definition extractClassicLevel ::
  "(string \<Rightarrow> string \<Rightarrow> string) \<Rightarrow> string \<Rightarrow> extract_options \<Rightarrow> store \<Rightarrow> (error + written) option" where
  "extractClassicLevel path_join dest opts db =
     and_then (buildFolders path_join opts db)
       (\<lambda>fm. extractEntries path_join dest opts fm db db [])"

section \<open>The embedded values of a document\<close>

text \<open>
  The values that the walker visits under one field of a document
  (\<open>embedded_list\<close>, as a set \<open>embedded_nodes\<close>), following the test in
  \<open>apply\<close>: the elements of an array under a collection-valued field, and any other
  truthy value itself. \<open>child_list\<close> lists them for all the fields of a schema
  entry, in order, each with the field name as its collection. The values that
  \<open>mapHierarchy\<close> hands to its callback (\<open>mapped_values\<close>) differ for a
  collection-valued field that holds no array: there are none. An embedded value is
  smaller than the document that holds it.
\<close>

definition embedded_list :: "bool \<Rightarrow> json \<Rightarrow> json list" where
  "embedded_list isArr v =
     (if isArr \<and> is_array v then elements v else if truthy v then [v] else [])"

definition embedded_nodes :: "bool \<Rightarrow> json \<Rightarrow> json set" where
  "embedded_nodes isArr v =
     (if isArr \<and> is_array v then set (elements v) else if truthy v then {v} else {})"

definition child_list :: "(string \<times> bool) list \<Rightarrow> json \<Rightarrow> (json \<times> string) list" where
  "child_list fs doc =
     concat (map (\<lambda>(name, isArr). map (\<lambda>x. (x, name)) (embedded_list isArr (field doc name))) fs)"

definition mapped_values :: "bool \<Rightarrow> json \<Rightarrow> json list" where
  "mapped_values isArr v =
     (if isArr then (if is_array v then elements v else []) else if truthy v then [v] else [])"

lemma set_embedded_list: "set (embedded_list isArr v) = embedded_nodes isArr v"
  by (simp add: embedded_list_def embedded_nodes_def)

lemma size_field: "field doc name = v \<Longrightarrow> v \<noteq> JUndefined \<Longrightarrow> size v < size doc"
proof (cases doc)
  case (JObj kvs)
  assume "field doc name = v" "v \<noteq> JUndefined"
  with JObj have "map_of kvs name = Some v" by (auto split: option.splits)
  then have "(name, v) \<in> set kvs" by (rule map_of_SomeD)
  then have "size v < size (JObj kvs)"
    by (induction kvs) auto
  with JObj show ?thesis by simp
qed auto

lemma size_embedded_node: "x \<in> embedded_nodes isArr (field doc name) \<Longrightarrow> size x < size doc"
proof -
  assume x: "x \<in> embedded_nodes isArr (field doc name)"
  then have nu: "field doc name \<noteq> JUndefined"
    by (auto simp: embedded_nodes_def split: if_splits)
  from size_field[OF refl nu] have lt: "size (field doc name) < size doc" .
  from x have "size x \<le> size (field doc name)"
  proof (cases "field doc name")
    case (JArr xs)
    with x have "x \<in> set xs \<or> x = JArr xs" by (auto simp: embedded_nodes_def split: if_splits)
    then show ?thesis
    proof
      assume "x \<in> set xs"
      then have "size x < size (JArr xs)" by (induction xs) auto
      with JArr show ?thesis by simp
    qed (simp add: JArr)
  qed (auto simp: embedded_nodes_def split: if_splits)
  with lt show ?thesis by simp
qed

lemma size_element: "x \<in> set (elements v) \<Longrightarrow> size x < size v"
proof (cases v)
  case (JArr xs)
  assume "x \<in> set (elements v)"
  with JArr have "x \<in> set xs" by simp
  then have "size x < size (JArr xs)" by (induction xs) auto
  with JArr show ?thesis by simp
qed auto

lemma child_size: "(x, name) \<in> set (child_list fs doc) \<Longrightarrow> size x < size doc"
  by (auto simp: child_list_def set_embedded_list dest: size_embedded_node)

lemma hierarchy_names_not_key: "(name, isArr) \<in> set (hierarchy_entries collection) \<Longrightarrow> name \<noteq> ''_key''"
  by (auto simp: hierarchy_entries_def HIERARCHY_def split: option.splits if_splits)

section \<open>Notions used in the statements\<close>

text \<open>
  \<open>nodes\<close> lists the nodes of a document's hierarchy in pre-order, each with its
  collection: the document, then the nodes of its embedded values, field by field.
  \<open>visit_each\<close> walks a list of embedded values one after the other with one
  context, passing the state on and stopping at the first error; \<open>forget\<close> drops
  the document from the result of a walk, which leaves what the source returns: an error
  or nothing, and the state.
\<close>

function nodes :: "json \<Rightarrow> string \<Rightarrow> (json \<times> string) list" where
  "nodes doc collection =
     (doc, collection) #
     concat (map (\<lambda>(x, name). nodes x name) (child_list (hierarchy_entries collection) doc))"
  by pat_completeness auto
termination
proof (relation "measure (\<lambda>(doc, collection). size doc)")
  show "wf (measure (\<lambda>(doc, collection). size doc))" by simp
next
  fix doc collection and p :: "json \<times> string" and x name
  assume "p \<in> set (child_list (hierarchy_entries collection) doc)" "(x, name) = p"
  then have "size x < size doc" using child_size by metis
  then show "((x, name), (doc, collection)) \<in> measure (\<lambda>(doc, collection). size doc)" by simp
qed

declare nodes.simps [simp del]

fun visit_each :: "'s visitor \<Rightarrow> (json \<times> string) list \<Rightarrow> json \<Rightarrow> 's \<Rightarrow> (error + 's) option" where
  "visit_each fn [] ctx s = Some (Inr s)"
| "visit_each fn ((x, name) # rest) ctx s =
     and_then (applyHierarchy fn (Apply x name ctx) s) (\<lambda>(x', s'). visit_each fn rest ctx s')"

definition forget :: "(error + json \<times> 's) option \<Rightarrow> (error + 's) option" where
  "forget r = and_then r (\<lambda>(v, s). Some (Inr s))"

text \<open>
  The value that the compiler's visitor stores for a node (\<open>packed_value\<close>), and
  the visitor's effect on the state for a list of nodes (\<open>stage_all\<close>).
\<close>

definition packed_value :: "json \<Rightarrow> string \<Rightarrow> json" where
  "packed_value doc collection =
     (case mapHierarchy (delete_field doc ''_key'') collection (\<lambda>d c. getp d ''_id'') of
        Inl e \<Rightarrow> JUndefined
      | Inr value \<Rightarrow> value)"

fun stage_all :: "(json \<times> string) list \<Rightarrow> pack_state \<Rightarrow> error + pack_state" where
  "stage_all [] st = Inr st"
| "stage_all ((d, c) # rest) st =
     (case packVisitor d c (JObj []) st of
        Inl e \<Rightarrow> Inl e
      | Inr (d', no, st') \<Rightarrow> stage_all rest st')"


definition resolved_key :: "entry_transformer option \<Rightarrow> source_file \<Rightarrow> string option" where
  "resolved_key tE file =
     (case parsed file of
        None \<Rightarrow> None
      | Some doc \<Rightarrow>
          (case getp doc ''_key'' of
             Inr (JStr k0) \<Rightarrow>
               (case run_transform tE doc of
                  Inr (doc', Keep) \<Rightarrow>
                    (case getp doc' ''_key'' of Inr (JStr k) \<Rightarrow> Some k | _ \<Rightarrow> None)
                | _ \<Rightarrow> None)
           | _ \<Rightarrow> None))"

definition put_keys :: "batch_op list \<Rightarrow> string set" where
  "put_keys b = {k. \<exists>v. Put k v \<in> set b}"

definition pack_inv :: "pack_state \<Rightarrow> bool" where
  "pack_inv st =
     (put_keys (batch st) = to_string ` seenKeys st \<and> (\<forall>op \<in> set (batch st). \<exists>k v. op = Put k v))"

definition embedded_key :: "string \<Rightarrow> bool" where
  "embedded_key key =
     (case nth_or_undefined (split_on CHR ''!'' key) 1 of
        JStr collection \<Rightarrow> CHR ''.'' \<in> set collection
      | _ \<Rightarrow> False)"

definition tracing :: "(json \<Rightarrow> string \<Rightarrow> json \<Rightarrow> json) \<Rightarrow> (json \<times> string \<times> json) list visitor" where
  "tracing cf doc collection options calls =
     Inr (doc, cf doc collection options, calls @ [(doc, collection, options)])"

definition node_conforms :: "json \<Rightarrow> string \<Rightarrow> bool" where
  "node_conforms doc collection =
     (is_object doc \<and>
      (\<forall>(name, isArr) \<in> set (hierarchy_entries collection).
         nullish (field doc name) \<or> (if isArr then is_array (field doc name) else is_object (field doc name))))"

definition resolved :: "(json \<Rightarrow> string \<Rightarrow> json) \<Rightarrow> bool \<Rightarrow> string \<Rightarrow> json \<Rightarrow> json" where
  "resolved g isArr name v =
     (if isArr then (if is_array v then JArr (map (\<lambda>e. g e name) (elements v)) else JArr [])
      else if truthy v then g v name else JNull)"

definition sub_of :: "json \<Rightarrow> string \<Rightarrow> string" where
  "sub_of options collection = keyJoin [field (default_options options) ''sublevelPrefix'', JStr collection]"

definition ident_of :: "json \<Rightarrow> json \<Rightarrow> string" where
  "ident_of options doc = keyJoin [field (default_options options) ''idPrefix'', field doc ''_id'']"

definition longest :: "store \<Rightarrow> nat" where
  "longest db = fold max (map length (db_keys db)) 0"

text \<open>
  The traversal as the specification words it: the node itself first, then, field by
  field in the order of the schema, every element of a collection-valued field in sequence
  order, and the value of a singular field when it is present and not null. Each embedded
  node is listed with the context computed for its parent.
\<close>

function visits ::
  "(json \<Rightarrow> string \<Rightarrow> json \<Rightarrow> json) \<Rightarrow> json \<Rightarrow> string \<Rightarrow> json \<Rightarrow> (json \<times> string \<times> json) list" where
  "visits cf doc collection options =
     (doc, collection, options) #
     concat (map (\<lambda>(name, isArr).
                    if isArr then
                      concat (map (\<lambda>x. visits cf x name (cf doc collection options))
                                  (elements (field doc name)))
                    else if nullish (field doc name) then []
                    else visits cf (field doc name) name (cf doc collection options))
                 (hierarchy_entries collection))"
  by pat_completeness auto
termination
proof (relation "measure (\<lambda>(cf, doc, collection, options). size doc)")
  show "wf (measure (\<lambda>(cf, doc, collection, options). size doc))" by simp
next
  fix cf :: "json \<Rightarrow> string \<Rightarrow> json \<Rightarrow> json" and doc collection options x xa y xb
  assume "xb \<in> set (elements (field doc xa))"
  then have "size xb < size (field doc xa)" by (rule size_element)
  moreover have "size (field doc xa) \<le> size doc"
    using size_field[of doc xa "field doc xa"] by (cases "field doc xa = JUndefined") auto
  ultimately show "((cf, xb, xa, cf doc collection options), (cf, doc, collection, options))
        \<in> measure (\<lambda>(cf, doc, collection, options). size doc)" by simp
next
  fix cf :: "json \<Rightarrow> string \<Rightarrow> json \<Rightarrow> json" and doc collection options x xa y
  assume "\<not> nullish (field doc xa)"
  then have "field doc xa \<noteq> JUndefined" by (auto simp: nullish_def)
  from size_field[OF refl this]
  show "((cf, field doc xa, xa, cf doc collection options), (cf, doc, collection, options))
        \<in> measure (\<lambda>(cf, doc, collection, options). size doc)" by simp
qed

declare visits.simps [simp del]

definition field_visits ::
  "(json \<Rightarrow> string \<Rightarrow> json \<Rightarrow> json) \<Rightarrow> json \<Rightarrow> json \<Rightarrow> string \<times> bool \<Rightarrow> (json \<times> string \<times> json) list" where
  "field_visits cf doc ctx entry =
     (case entry of (name, isArr) \<Rightarrow>
        if isArr then concat (map (\<lambda>x. visits cf x name ctx) (elements (field doc name)))
        else if nullish (field doc name) then []
        else visits cf (field doc name) name ctx)"

text \<open>
  The embedded nodes of a document as the specification words them
  (\<open>children\<close>): every element of a collection-valued field, and the value of a
  singular field that is present and not null. The context handed to them
  (\<open>or_empty\<close>): the one returned for the parent, or the empty object when that
  is \<open>undefined\<close> or \<open>null\<close>.
\<close>

definition or_empty :: "json \<Rightarrow> json" where
  "or_empty v = (if v = JUndefined \<or> v = JNull then JObj [] else v)"

definition children :: "string \<Rightarrow> json \<Rightarrow> (json \<times> string) list" where
  "children collection doc =
     concat (map (\<lambda>(name, isArr).
                    if isArr then map (\<lambda>x. (x, name)) (elements (field doc name))
                    else if nullish (field doc name) then []
                    else [(field doc name, name)])
                 (hierarchy_entries collection))"



text \<open>
  The display names of the ancestors of a folder, the root first, found by following the
  parent references (\<open>ancestors\<close>, for at most \<open>n\<close> steps), and the
  condition that every chain of parent references in a folder map ends, within
  \<open>n\<close> steps (\<open>acyclic_folders\<close>).
\<close>

fun ancestors :: "nat \<Rightarrow> folders_map \<Rightarrow> json \<Rightarrow> string list" where
  "ancestors 0 fm p = []"
| "ancestors (Suc n) fm p =
     (case map_of fm p of None \<Rightarrow> [] | Some e \<Rightarrow> ancestors n fm (fparent e) @ [fname e])"

fun chain_ends :: "nat \<Rightarrow> folders_map \<Rightarrow> json \<Rightarrow> bool" where
  "chain_ends 0 fm p = (map_of fm p = None)"
| "chain_ends (Suc n) fm p =
     (case map_of fm p of None \<Rightarrow> True | Some e \<Rightarrow> chain_ends n fm (fparent e))"

definition acyclic_folders :: "nat \<Rightarrow> folders_map \<Rightarrow> bool" where
  "acyclic_folders n fm = (\<forall>(i, f) \<in> set fm. chain_ends n fm (fparent f))"

section \<open>Example data\<close>

definition item_file :: "string \<Rightarrow> source_file" where
  "item_file i =
     \<lparr>path = i @ ''.json'', parsed = Some (JObj [(''_key'', JStr (''!items!'' @ i)), (''_id'', JStr i)])\<rparr>"

definition item_value :: "string \<Rightarrow> json" where
  "item_value i = JObj [(''_id'', JStr i), (''effects'', JArr [])]"

definition scenario_doc :: json where
  "scenario_doc =
     JObj [(''_key'', JStr ''!actors!abc''), (''_id'', JStr ''abc''), (''name'', JStr ''Hero''),
           (''items'', JArr [JObj [(''_id'', JStr ''i1''), (''name'', JStr ''Sword'')]])]"

definition keyed_scenario_doc :: json where
  "keyed_scenario_doc =
     JObj [(''_key'', JStr ''!actors!abc''), (''_id'', JStr ''abc''), (''name'', JStr ''Hero''),
           (''items'', JArr [JObj [(''_key'', JStr ''!actors.items!abc.i1''), (''_id'', JStr ''i1''),
                                   (''name'', JStr ''Sword'')]])]"

definition numbered_doc :: json where
  "numbered_doc =
     JObj [(''_key'', JStr ''!actors!abc''), (''_id'', JStr ''abc''),
           (''items'', JArr [JObj [(''_key'', JNum (number 5)), (''_id'', JStr ''i1'')]])]"

definition tokened_scene :: json where
  "tokened_scene =
     JObj [(''_key'', JStr ''!scenes!s1''), (''_id'', JStr ''s1''),
           (''tokens'',
            JArr [JObj [(''_key'', JStr ''!scenes.tokens!s1.t1''), (''_id'', JStr ''t1''),
                        (''delta'', JObj [(''_key'', JStr ''!scenes.tokens.delta!s1.t1.d1''),
                                          (''name'', JStr ''Orc'')])]])]"

definition slash_join :: "string \<Rightarrow> string \<Rightarrow> string" where
  "slash_join a b = a @ ''/'' @ b"

definition plain_options :: extract_options where
  "plain_options = \<lparr>yaml = False, folders = False, transformEntry = None, transformName = None,
     transformFolderName = None\<rparr>"

definition scene_store :: store where
  "scene_store =
     [(''!scenes!s1'', JObj [(''_id'', JStr ''s1''), (''name'', JStr ''Cave''), (''tokens'', JArr [JStr ''t1''])]),
      (''!scenes.tokens!s1.t1'', JObj [(''_id'', JStr ''t1''), (''name'', JStr ''Orc''), (''delta'', JStr ''d1'')])]"

definition folder_store :: store where
  "folder_store =
     [(''!folders!a'', JObj [(''_id'', JStr ''a''), (''name'', JStr ''A''), (''folder'', JNull)]),
      (''!folders!b'', JObj [(''_id'', JStr ''b''), (''name'', JStr ''B''), (''folder'', JStr ''a'')]),
      (''!folders!c'', JObj [(''_id'', JStr ''c''), (''name'', JStr ''C''), (''folder'', JStr ''b'')]),
      (''!items!x'', JObj [(''_id'', JStr ''x''), (''name'', JStr ''Sword''), (''folder'', JStr ''c'')])]"

definition folder_index :: folders_map where
  "folder_index =
     [(JStr ''a'', \<lparr>fname = ''A_a'', fparent = JNull, fpath = ''A_a''\<rparr>),
      (JStr ''b'', \<lparr>fname = ''B_b'', fparent = JStr ''a'', fpath = ''A_a/B_b''\<rparr>),
      (JStr ''c'', \<lparr>fname = ''C_c'', fparent = JStr ''b'', fpath = ''A_a/B_b/C_c''\<rparr>)]"

definition cyclic_store :: store where
  "cyclic_store =
     [(''!folders!a'', JObj [(''_id'', JStr ''a''), (''name'', JStr ''A''), (''folder'', JStr ''b'')]),
      (''!folders!b'', JObj [(''_id'', JStr ''b''), (''name'', JStr ''B''), (''folder'', JStr ''a'')])]"

definition sword_name :: name_transformer where
  "sword_name doc folder = (if field doc ''name'' = JStr ''Sword'' then Some ''Sword.json'' else None)"

definition parent_context :: "json \<Rightarrow> string \<Rightarrow> json \<Rightarrow> json" where
  "parent_context doc collection options = JObj [(''parent'', field doc ''_id'')]"

definition no_context :: "json \<Rightarrow> string \<Rightarrow> json \<Rightarrow> json" where
  "no_context doc collection options = JUndefined"

definition hero :: json where
  "hero =
     JObj [(''_id'', JStr ''abc''), (''name'', JStr ''Hero''),
           (''items'',
            JArr [JObj [(''_id'', JStr ''i1''), (''effects'', JArr [JObj [(''_id'', JStr ''e1'')]])],
                  JObj [(''_id'', JStr ''i2'')]]),
           (''effects'', JNull)]"


section \<open>Unfolding the walker\<close>

lemma and_then_simps [simp]:
  "and_then None f = None"
  "and_then (Some (Inl e)) f = Some (Inl e)"
  "and_then (Some (Inr x)) f = f x"
  by (simp_all add: and_then_def)

lemma and_then_cong [cong]: "m = m' \<Longrightarrow> and_then m f = and_then m' f"
  by simp

lemma int_of_number:
  "- 9007199254740992 < n \<Longrightarrow> n < 9007199254740992 \<Longrightarrow> int_of (number n) = n"
  by (simp add: int_of.rep_eq number.rep_eq)

lemma applyHierarchy_Apply:
  "applyHierarchy fn (Apply doc collection options) s =
     (case fn doc collection (default_options options) s of
        Inl e \<Rightarrow> Some (Inl e)
      | Inr (doc', newOptions, s') \<Rightarrow>
          applyHierarchy fn (Fields (hierarchy_entries collection) doc' (nullish_default newOptions)) s')"
  by (subst applyHierarchy.simps) (simp split: sum.splits)

lemma applyHierarchy_Fields_Nil:
  "applyHierarchy fn (Fields [] doc options) s = Some (Inr (doc, s))"
  by (subst applyHierarchy.simps) simp

lemma applyHierarchy_Fields_Cons:
  "applyHierarchy fn (Fields ((name, isArr) # rest) doc options) s =
     (case embedded_walk isArr doc name options of
        Inl e \<Rightarrow> Some (Inl e)
      | Inr None \<Rightarrow> applyHierarchy fn (Fields rest doc options) s
      | Inr (Some child) \<Rightarrow>
          and_then (applyHierarchy fn child s)
            (\<lambda>(v, s'). applyHierarchy fn (Fields rest (put_field doc name v) options) s'))"
  by (subst applyHierarchy.simps) simp

lemma applyHierarchy_Elems_Nil:
  "applyHierarchy fn (Elems [] name options) s = Some (Inr (JArr [], s))"
  by (subst applyHierarchy.simps) simp

lemma applyHierarchy_Elems_Cons:
  "applyHierarchy fn (Elems (x # rest) name options) s =
     and_then (applyHierarchy fn (Apply x name options) s)
       (\<lambda>(x', s').
          and_then (applyHierarchy fn (Elems rest name options) s')
            (\<lambda>(v, s''). Some (Inr (JArr (x' # elements v), s''))))"
  by (subst applyHierarchy.simps) simp

lemmas walk_simps = applyHierarchy_Apply applyHierarchy_Fields_Nil applyHierarchy_Fields_Cons
  applyHierarchy_Elems_Nil applyHierarchy_Elems_Cons

lemmas js_simps = getp_def nullish_def primitive_def default_options_def nullish_default_def
  nth_or_undefined_def embedded_walk_def int_of_number

lemmas schema_simps = hierarchy_entries_def HIERARCHY_def mapHierarchy_def mapField_def

lemmas compile_simps = packDoc_def packVisitor_def packFile_def compileClassicLevel_def
  initial_state_def run_transform_def batch_put_def set_has_def stageDeletes_def batch_write_def
  store_put_def store_del_def compactClassicLevel_def truthy_key_def db_keys_def

section \<open>mapHierarchy normalises the embedded fields\<close>

lemma hierarchy_entries_distinct: "distinct (map fst (hierarchy_entries collection))"
  by (simp add: hierarchy_entries_def HIERARCHY_def)

lemma field_update:
  "field (JObj (AList.update k v kvs)) k' = (if k' = k then v else field (JObj kvs) k')"
  by (simp add: update_conv')

lemma map_result_Inr: "\<forall>x \<in> set xs. f x = Inr (g x) \<Longrightarrow> map_result f xs = Inr (map g xs)"
  by (induction xs) auto

lemma map_result_succeeds: "map_result f xs = Inr ys \<Longrightarrow> x \<in> set xs \<Longrightarrow> \<exists>y. f x = Inr y"
  by (induction xs arbitrary: ys) (auto split: sum.splits)

lemma mapField_values:
  assumes "\<forall>x \<in> set (mapped_values a (field (JObj kvs) n)). fn x n = Inr (g x n)"
  shows "mapField (JObj kvs) (n, a) fn
       = Inr (JObj (AList.update n (resolved g a n (field (JObj kvs) n)) kvs))"
proof -
  have arr: "map_result (\<lambda>entry. fn entry n) (elements (field (JObj kvs) n))
           = Inr (map (\<lambda>e. g e n) (elements (field (JObj kvs) n)))"
    if "a" "is_array (field (JObj kvs) n)"
    using assms that by (intro map_result_Inr) (simp add: mapped_values_def)
  have one: "fn (field (JObj kvs) n) n = Inr (g (field (JObj kvs) n) n)"
    if "\<not> a" "truthy (field (JObj kvs) n)"
    using assms that by (simp add: mapped_values_def)
  show ?thesis
    using arr one
    by (simp add: mapField_def getp_def nullish_def resolved_def del: field.simps)
qed

lemma mapFields_values:
  assumes "distinct (map fst es)"
    and "\<forall>(n, a) \<in> set es. \<forall>x \<in> set (mapped_values a (field (JObj kvs) n)). fn x n = Inr (g x n)"
  shows "\<exists>d'. mapFields es (JObj kvs) fn = Inr d' \<and> is_object d'
        \<and> (\<forall>(n, a) \<in> set es. field d' n = resolved g a n (field (JObj kvs) n))
        \<and> (\<forall>k. k \<notin> fst ` set es \<longrightarrow> field d' k = field (JObj kvs) k)"
  using assms
proof (induction es arbitrary: kvs)
  case Nil
  then show ?case by simp
next
  case (Cons e es)
  obtain n a where e: "e = (n, a)" by (cases e)
  let ?kvs = "AList.update n (resolved g a n (field (JObj kvs) n)) kvs"
  from Cons.prems(1) have dist: "distinct (map fst es)" and fresh: "n \<notin> fst ` set es"
    by (auto simp: e)
  have same: "field (JObj ?kvs) m = field (JObj kvs) m" if "(m, b) \<in> set es" for m b
  proof -
    from that fresh have "m \<noteq> n" by force
    then show ?thesis by (simp add: field_update del: field.simps)
  qed
  have hyp: "\<forall>(m, b) \<in> set es. \<forall>x \<in> set (mapped_values b (field (JObj ?kvs) m)). fn x m = Inr (g x m)"
    using Cons.prems(2) same by (auto simp del: field.simps)
  from Cons.IH[OF dist hyp] obtain d' where
    d': "mapFields es (JObj ?kvs) fn = Inr d'" "is_object d'"
    and vals: "\<forall>(m, b) \<in> set es. field d' m = resolved g b m (field (JObj ?kvs) m)"
    and others: "\<forall>k. k \<notin> fst ` set es \<longrightarrow> field d' k = field (JObj ?kvs) k"
    by blast
  have head: "mapField (JObj kvs) (n, a) fn = Inr (JObj ?kvs)"
    by (rule mapField_values) (use Cons.prems(2) in \<open>simp add: e del: field.simps\<close>)
  have "mapFields (e # es) (JObj kvs) fn = Inr d'"
    by (simp add: e head d' del: field.simps)
  moreover have "field d' n = resolved g a n (field (JObj kvs) n)"
    using others fresh by (simp add: field_update del: field.simps)
  moreover have "field d' m = resolved g b m (field (JObj kvs) m)" if "(m, b) \<in> set es" for m b
    using vals that same[OF that] by (auto simp del: field.simps)
  moreover have "field d' k = field (JObj kvs) k" if "k \<notin> fst ` set (e # es)" for k
    using that others by (auto simp: e field_update simp del: field.simps)
  ultimately show ?case using d'(2) by (auto simp: e simp del: field.simps)
qed

lemma mapField_success:
  assumes "mapField (JObj kvs) (n, a) fn = Inr d1"
  shows "\<exists>v. d1 = JObj (AList.update n v kvs)"
    and "x \<in> set (mapped_values a (field (JObj kvs) n)) \<Longrightarrow> \<exists>y. fn x n = Inr y"
proof -
  show "\<exists>v. d1 = JObj (AList.update n v kvs)"
    using assms by (auto simp: mapField_def getp_def nullish_def split: if_splits sum.splits simp del: field.simps)
  show "\<exists>y. fn x n = Inr y" if "x \<in> set (mapped_values a (field (JObj kvs) n))"
    using assms that map_result_succeeds[of "\<lambda>entry. fn entry n" "elements (field (JObj kvs) n)" _ x]
    by (auto simp: mapField_def getp_def nullish_def mapped_values_def
          split: if_splits sum.splits simp del: field.simps)
qed

lemma mapFields_success:
  assumes "mapFields es (JObj kvs) fn = Inr d'" and "distinct (map fst es)"
    and "(n, a) \<in> set es" and "x \<in> set (mapped_values a (field (JObj kvs) n))"
  shows "\<exists>y. fn x n = Inr y"
  using assms
proof (induction es arbitrary: kvs)
  case Nil
  then show ?case by simp
next
  case (Cons e es)
  obtain m b where e: "e = (m, b)" by (cases e)
  from Cons.prems(1) obtain d1 where d1: "mapField (JObj kvs) (m, b) fn = Inr d1"
    and rest: "mapFields es d1 fn = Inr d'"
    by (auto simp: e split: sum.splits)
  from mapField_success(1)[OF d1] obtain v where v: "d1 = JObj (AList.update m v kvs)" by blast
  from Cons.prems(2) have dist: "distinct (map fst es)" and fresh: "m \<notin> fst ` set es"
    by (auto simp: e)
  show ?case
  proof (cases "(n, a) = (m, b)")
    case True
    with mapField_success(2)[OF d1, of x] Cons.prems(4) show ?thesis by simp
  next
    case False
    with Cons.prems(3) have mem: "(n, a) \<in> set es" by (auto simp: e)
    with fresh have "n \<noteq> m" by force
    then have "field (JObj (AList.update m v kvs)) n = field (JObj kvs) n"
      by (simp add: field_update del: field.simps)
    with Cons.IH[OF rest[unfolded v] dist mem] Cons.prems(4) show ?thesis by simp
  qed
qed

text \<open>
  C10, as stated, fails. A singular field that is present receives whatever the
  callback yields. The compiler's callback yields the \<open>_id\<close> of the embedded
  document, and the delta of the token below has none: the field is set to
  \<open>undefined\<close>, and the value stored for the token has no \<open>delta\<close>. The
  extractor's callback yields \<open>undefined\<close> for a reference that the store does not
  hold, with the same effect. A document that is an array keeps none of the fields in its
  JSON form, and for a string the assignment of the field fails.
\<close>

theorem compiled_token_lacks_delta:
  "compileClassicLevel None [\<lparr>path = ''Cave.json'', parsed = Some tokened_scene\<rparr>] []
     = Some (Inr (Some (''!scenes!s1'', ''!scenes.tokens.delta!s1.t1.d1'')),
             [(''!scenes!s1'',
               JObj [(''_id'', JStr ''s1''), (''tokens'', JArr [JStr ''t1'']),
                     (''drawings'', JArr []), (''lights'', JArr []), (''notes'', JArr []),
                     (''regions'', JArr []), (''sounds'', JArr []), (''templates'', JArr []),
                     (''tiles'', JArr []), (''walls'', JArr [])]),
              (''!scenes.tokens!s1.t1'', JObj [(''_id'', JStr ''t1'')]),
              (''!scenes.tokens.delta!s1.t1.d1'',
               JObj [(''name'', JStr ''Orc''), (''items'', JArr []), (''effects'', JArr [])])])
   \<and> hierarchy_entries ''tokens'' = [(''delta'', False)]
   \<and> mapHierarchy (JObj [(''_id'', JStr ''t1''), (''delta'', JObj [(''name'', JStr ''Orc'')])]) ''tokens''
        (\<lambda>d c. getp d ''_id'')
     = Inr (JObj [(''_id'', JStr ''t1''), (''delta'', JUndefined)])
   \<and> mapHierarchy (JObj [(''_id'', JStr ''t1''), (''delta'', JStr ''d1'')]) ''tokens''
        (\<lambda>embeddedId embeddedCollectionName.
           Inr (db_get [] (child_key ''scenes.tokens'' ''s1.t1'' embeddedCollectionName embeddedId)))
     = Inr (JObj [(''_id'', JStr ''t1''), (''delta'', JUndefined)])
   \<and> mapHierarchy (JArr []) ''tokens'' (\<lambda>d c. getp d ''_id'') = Inr (JArr [])
   \<and> mapHierarchy (JStr ''t1'') ''tokens'' (\<lambda>d c. getp d ''_id'') = Inl TypeError"
  by (simp add: tokened_scene_def js_simps schema_simps compile_simps walk_simps db_get_def)

text \<open>
  C10, amended. For an object document, \<open>mapHierarchy\<close> succeeds exactly
  when the callback succeeds on every embedded value that it is handed, and it then sets
  every embedded field that the schema declares for the collection and leaves the other
  fields alone: a collection-valued field holds an array, the callback's results for the
  elements in order, or the empty array when the source field was not an array; a singular
  field holds \<open>null\<close> when the source field was absent (or otherwise falsy), and
  else the value that the callback yields for it.
\<close>

theorem mapHierarchy_normalizes:
  assumes "is_object doc"
  shows "((\<forall>(name, isArr) \<in> set (hierarchy_entries collection).
            \<forall>x \<in> set (mapped_values isArr (field doc name)). fn x name = Inr (g x name)) \<longrightarrow>
          (\<exists>doc'. mapHierarchy doc collection fn = Inr doc' \<and> is_object doc'
             \<and> (\<forall>(name, isArr) \<in> set (hierarchy_entries collection).
                   field doc' name =
                     (if isArr
                      then (if is_array (field doc name)
                            then JArr (map (\<lambda>x. g x name) (elements (field doc name)))
                            else JArr [])
                      else if truthy (field doc name) then g (field doc name) name else JNull))
             \<and> (\<forall>k. k \<notin> fst ` set (hierarchy_entries collection) \<longrightarrow> field doc' k = field doc k)))
       \<and> ((\<exists>doc'. mapHierarchy doc collection fn = Inr doc') \<longrightarrow>
          (\<forall>(name, isArr) \<in> set (hierarchy_entries collection).
             \<forall>x \<in> set (mapped_values isArr (field doc name)). \<exists>y. fn x name = Inr y))"
proof -
  from assms obtain kvs where doc: "doc = JObj kvs" by (cases doc) auto
  have one: "\<exists>doc'. mapHierarchy doc collection fn = Inr doc' \<and> is_object doc'
             \<and> (\<forall>(name, isArr) \<in> set (hierarchy_entries collection).
                   field doc' name =
                     (if isArr
                      then (if is_array (field doc name)
                            then JArr (map (\<lambda>x. g x name) (elements (field doc name)))
                            else JArr [])
                      else if truthy (field doc name) then g (field doc name) name else JNull))
             \<and> (\<forall>k. k \<notin> fst ` set (hierarchy_entries collection) \<longrightarrow> field doc' k = field doc k)"
    if "\<forall>(name, isArr) \<in> set (hierarchy_entries collection).
            \<forall>x \<in> set (mapped_values isArr (field doc name)). fn x name = Inr (g x name)"
    using mapFields_values[OF hierarchy_entries_distinct, of collection kvs fn g] that
    unfolding doc mapHierarchy_def resolved_def by blast
  have two: "\<exists>y. fn x name = Inr y"
    if "mapHierarchy doc collection fn = Inr doc'" "(name, isArr) \<in> set (hierarchy_entries collection)"
      "x \<in> set (mapped_values isArr (field doc name))" for doc' name isArr x
    using mapFields_success[OF _ hierarchy_entries_distinct, of collection kvs fn doc' name isArr x] that
    by (simp add: doc mapHierarchy_def del: field.simps)
  from one two show ?thesis by blast
qed

theorem mapHierarchy_normalizes_witness:
  "mapHierarchy (JObj [(''_id'', JStr ''abc''), (''items'', JArr [JObj [(''_id'', JStr ''i1'')]])]) ''actors''
      (\<lambda>d c. getp d ''_id'')
     = Inr (JObj [(''_id'', JStr ''abc''), (''items'', JArr [JStr ''i1'']), (''effects'', JArr [])])
   \<and> mapHierarchy (JObj [(''_id'', JStr ''t1'')]) ''tokens'' (\<lambda>d c. getp d ''_id'')
     = Inr (JObj [(''_id'', JStr ''t1''), (''delta'', JNull)])
   \<and> (\<exists>y. getp (JObj [(''_id'', JStr ''i1'')]) ''_id'' = Inr y)"
proof -
  let ?actor = "JObj [(''_id'', JStr ''abc''), (''items'', JArr [JObj [(''_id'', JStr ''i1'')]])]"
  let ?token = "JObj [(''_id'', JStr ''t1'')]"
  have a: "\<forall>(name, isArr) \<in> set (hierarchy_entries ''actors'').
             \<forall>x \<in> set (mapped_values isArr (field ?actor name)). getp x ''_id'' = Inr (field x ''_id'')"
    by (simp add: schema_simps mapped_values_def js_simps)
  have t: "\<forall>(name, isArr) \<in> set (hierarchy_entries ''tokens'').
             \<forall>x \<in> set (mapped_values isArr (field ?token name)). getp x ''_id'' = Inr (field x ''_id'')"
    by (simp add: schema_simps mapped_values_def js_simps)
  have oa: "is_object ?actor" and ot: "is_object ?token" by simp_all
  from mapHierarchy_normalizes[OF oa, of "''actors''" "\<lambda>d c. getp d ''_id''" "\<lambda>d c. field d ''_id''"] a
  obtain da where da: "mapHierarchy ?actor ''actors'' (\<lambda>d c. getp d ''_id'') = Inr da"
    and ia: "\<forall>(name, isArr) \<in> set (hierarchy_entries ''actors'').
             \<forall>x \<in> set (mapped_values isArr (field ?actor name)). \<exists>y. getp x ''_id'' = Inr y"
    by blast
  from mapHierarchy_normalizes[OF ot, of "''tokens''" "\<lambda>d c. getp d ''_id''" "\<lambda>d c. field d ''_id''"] t
  obtain dt where dt: "mapHierarchy ?token ''tokens'' (\<lambda>d c. getp d ''_id'') = Inr dt"
    by blast
  from ia have "\<exists>y. getp (JObj [(''_id'', JStr ''i1'')]) ''_id'' = Inr y"
    by (simp add: schema_simps mapped_values_def)
  moreover from da have "mapHierarchy ?actor ''actors'' (\<lambda>d c. getp d ''_id'')
     = Inr (JObj [(''_id'', JStr ''abc''), (''items'', JArr [JStr ''i1'']), (''effects'', JArr [])])"
    by (simp add: schema_simps js_simps)
  moreover from dt have "mapHierarchy ?token ''tokens'' (\<lambda>d c. getp d ''_id'')
     = Inr (JObj [(''_id'', JStr ''t1''), (''delta'', JNull)])"
    by (simp add: schema_simps js_simps)
  ultimately show ?thesis by simp
qed

section \<open>Invariants and termination of the walker\<close>

lemma and_then_eq_Some:
  "and_then m f = Some y \<longleftrightarrow>
     (\<exists>e. m = Some (Inl e) \<and> y = Inl e) \<or> (\<exists>x. m = Some (Inr x) \<and> f x = Some y)"
  by (cases m) (auto simp: and_then_def split: sum.splits)

lemma and_then_Inr:
  "and_then m f = Some (Inr z) \<longleftrightarrow> (\<exists>x. m = Some (Inr x) \<and> f x = Some (Inr z))"
  by (auto simp: and_then_eq_Some)

lemma applyHierarchy_invariant:
  assumes run: "applyHierarchy fn t0 s0 = Some (Inr (v0, s0'))"
    and step: "\<And>doc c opts s doc' no s'. fn doc c opts s = Inr (doc', no, s') \<Longrightarrow> R s s'"
    and refl: "\<And>s. R s s"
    and trans: "\<And>a b c. R a b \<Longrightarrow> R b c \<Longrightarrow> R a c"
  shows "R s0 s0'"
proof -
  have "fn = fn \<longrightarrow> (\<forall>v s'. (Inr (v0, s0') :: error + _) = Inr (v, s') \<longrightarrow> R s0 s')"
  proof (rule applyHierarchy.raw_induct
      [where P = "\<lambda>fn' t s y. fn' = fn \<longrightarrow> (\<forall>v s'. y = Inr (v, s') \<longrightarrow> R s s')", OF _ run])
    fix ah :: "'a visitor \<Rightarrow> walk \<Rightarrow> 'a \<Rightarrow> (error + json \<times> 'a) option"
    fix fn' t s y
    assume IH0: "\<And>fn' t s y. ah fn' t s = Some y \<Longrightarrow> fn' = fn \<longrightarrow> (\<forall>v s'. y = Inr (v, s') \<longrightarrow> R s s')"
    have IH: "\<And>t s v s'. ah fn t s = Some (Inr (v, s')) \<Longrightarrow> R s s'"
      using IH0 by blast
    assume body: "(case t of
         Apply doc collection options \<Rightarrow>
           and_then (Some (fn' doc collection (default_options options) s))
             (\<lambda>(doc', newOptions, s').
                ah fn' (Fields (hierarchy_entries collection) doc' (nullish_default newOptions)) s')
       | Fields [] doc options \<Rightarrow> Some (Inr (doc, s))
       | Fields ((name, isArr) # rest) doc options \<Rightarrow>
           (case embedded_walk isArr doc name options of
              Inl e \<Rightarrow> Some (Inl e)
            | Inr None \<Rightarrow> ah fn' (Fields rest doc options) s
            | Inr (Some child) \<Rightarrow>
                and_then (ah fn' child s)
                  (\<lambda>(v, s'). ah fn' (Fields rest (put_field doc name v) options) s'))
       | Elems [] name options \<Rightarrow> Some (Inr (JArr [], s))
       | Elems (x # rest) name options \<Rightarrow>
           and_then (ah fn' (Apply x name options) s)
             (\<lambda>(x', s').
                and_then (ah fn' (Elems rest name options) s')
                  (\<lambda>(v, s''). Some (Inr (JArr (x' # elements v), s''))))) = Some y"
    show "fn' = fn \<longrightarrow> (\<forall>v s'. y = Inr (v, s') \<longrightarrow> R s s')"
    proof (intro impI allI)
      fix v s'
      assume fn': "fn' = fn" and y: "y = Inr (v, s')"
      show "R s s'"
      proof (cases t)
        case (Apply doc c opts)
        with body y fn' obtain doc' no s1 where
          "fn doc c (default_options opts) s = Inr (doc', no, s1)"
          "ah fn (Fields (hierarchy_entries c) doc' (nullish_default no)) s1 = Some (Inr (v, s'))"
          by (auto simp: and_then_Inr)
        with step IH show ?thesis by (meson trans)
      next
        case (Fields fs doc opts)
        show ?thesis
        proof (cases fs)
          case Nil
          with Fields body y show ?thesis by (simp add: refl)
        next
          case (Cons e rest)
          obtain n a where e: "e = (n, a)" by (cases e)
          from body y fn' Fields Cons e show ?thesis
            by (auto simp: and_then_Inr split: sum.splits option.splits intro: trans dest!: IH)
        qed
      next
        case (Elems xs n opts)
        show ?thesis
        proof (cases xs)
          case Nil
          with Elems body y show ?thesis by (simp add: refl)
        next
          case (Cons x rest)
          from body y fn' Elems Cons show ?thesis
            by (auto simp: and_then_Inr dest!: IH intro: trans)
        qed
      qed
    qed
  qed
  then show ?thesis by simp
qed


lemma Elems_terminates:
  assumes "\<And>x s. x \<in> set xs \<Longrightarrow> \<exists>r. applyHierarchy fn (Apply x name opts) s = Some r"
  shows "\<exists>r. applyHierarchy fn (Elems xs name opts) s = Some r"
  using assms
proof (induction xs arbitrary: s)
  case Nil
  then show ?case by (simp add: applyHierarchy_Elems_Nil)
next
  case (Cons x xs)
  from Cons.prems[of x s] obtain r where r: "applyHierarchy fn (Apply x name opts) s = Some r"
    by auto
  show ?case
  proof (cases r)
    case (Inl e)
    with r show ?thesis by (simp add: applyHierarchy_Elems_Cons)
  next
    case (Inr p)
    obtain x' s1 where p: "p = (x', s1)" by (cases p)
    from Cons.IH[of s1] Cons.prems obtain r' where
      r': "applyHierarchy fn (Elems xs name opts) s1 = Some r'" by auto
    show ?thesis using r Inr p r'
      by (cases r') (auto simp: applyHierarchy_Elems_Cons)
  qed
qed

lemma field_put_field_other: "k' \<noteq> k \<Longrightarrow> field (put_field d k v) k' = field d k'"
  by (cases d) (simp_all add: update_conv')

lemma Fields_terminates:
  assumes "distinct (map fst fs)"
    and "\<And>name isArr x s. (name, isArr) \<in> set fs \<Longrightarrow> x \<in> embedded_nodes isArr (field doc name)
           \<Longrightarrow> \<exists>r. applyHierarchy fn (Apply x name opts) s = Some r"
  shows "\<exists>r. applyHierarchy fn (Fields fs doc opts) s = Some r"
  using assms
proof (induction fs arbitrary: doc s)
  case Nil
  then show ?case by (simp add: applyHierarchy_Fields_Nil)
next
  case (Cons e rest)
  obtain n a where e: "e = (n, a)" by (cases e)
  from Cons.prems(1) have dist: "distinct (map fst rest)" and fresh: "n \<notin> fst ` set rest"
    by (auto simp: e)
  have rest_ok: "\<exists>r. applyHierarchy fn (Fields rest (put_field doc n v) opts) s' = Some r" for v s'
  proof (rule Cons.IH[OF dist])
    fix name isArr x s
    assume mem: "(name, isArr) \<in> set rest"
      and x: "x \<in> embedded_nodes isArr (field (put_field doc n v) name)"
    from mem fresh have "name \<noteq> n" by force
    with x have "x \<in> embedded_nodes isArr (field doc name)"
      by (simp add: field_put_field_other)
    with Cons.prems(2)[of name isArr x s] mem
    show "\<exists>r. applyHierarchy fn (Apply x name opts) s = Some r" by simp
  qed
  have same_ok: "\<exists>r. applyHierarchy fn (Fields rest doc opts) s = Some r"
  proof (rule Cons.IH[OF dist])
    fix name isArr x s
    assume "(name, isArr) \<in> set rest" "x \<in> embedded_nodes isArr (field doc name)"
    with Cons.prems(2)[of name isArr x s]
    show "\<exists>r. applyHierarchy fn (Apply x name opts) s = Some r" by simp
  qed
  show ?case
  proof (cases "embedded_walk a doc n opts")
    case (Inl err)
    then show ?thesis by (simp add: e applyHierarchy_Fields_Cons)
  next
    case (Inr w)
    show ?thesis
    proof (cases w)
      case None
      with Inr same_ok show ?thesis by (simp add: e applyHierarchy_Fields_Cons)
    next
      case (Some child)
      have "\<exists>r. applyHierarchy fn child s = Some r"
      proof (cases "a \<and> is_array (field doc n)")
        case True
        with Inr Some have child: "child = Elems (elements (field doc n)) n opts"
          by (auto simp: embedded_walk_def getp_def split: if_splits)
        show ?thesis unfolding child
        proof (rule Elems_terminates)
          fix x s
          assume "x \<in> set (elements (field doc n))"
          with True have "x \<in> embedded_nodes a (field doc n)" by (simp add: embedded_nodes_def)
          with Cons.prems(2)[of n a x s] show "\<exists>r. applyHierarchy fn (Apply x n opts) s = Some r"
            by (simp add: e)
        qed
      next
        case False
        with Inr Some have child: "child = Apply (field doc n) n opts" and t: "truthy (field doc n)"
          by (auto simp: embedded_walk_def getp_def split: if_splits)
        from False t have "field doc n \<in> embedded_nodes a (field doc n)"
          by (auto simp: embedded_nodes_def)
        with Cons.prems(2)[of n a "field doc n" s] show ?thesis
          by (simp add: e child)
      qed
      then obtain r where r: "applyHierarchy fn child s = Some r" by auto
      show ?thesis
      proof (cases r)
        case (Inl err)
        with r Inr Some show ?thesis by (simp add: e applyHierarchy_Fields_Cons)
      next
        case (Inr p)
        obtain v s1 where p: "p = (v, s1)" by (cases p)
        from rest_ok[of v s1] r Inr p \<open>embedded_walk a doc n opts = Inr w\<close> Some
        show ?thesis by (simp add: e applyHierarchy_Fields_Cons)
      qed
    qed
  qed
qed

lemma field_delete_field:
  "field (delete_field doc k) name = (if name = k then JUndefined else field doc name)"
  by (cases doc) (simp_all add: delete_conv')

lemma set_has_string [simp]: "set_has seen (JStr k) = (JStr k \<in> seen)"
  by (simp add: set_has_def primitive_def)

lemma packVisitor_Inr:
  "packVisitor doc collection options st = Inr (doc', no, st') \<Longrightarrow>
     doc' = delete_field doc ''_key'' \<and> no = JUndefined
     \<and> (\<exists>value. getp doc ''_key'' = Inr (field doc ''_key'') \<and> \<not> nullish (field doc ''_key'')
           \<and> \<not> set_has (seenKeys st) (field doc ''_key'')
           \<and> mapHierarchy (delete_field doc ''_key'') collection (\<lambda>d c. getp d ''_id'') = Inr value
           \<and> st' = \<lparr>seenKeys = insert (field doc ''_key'') (seenKeys st),
                     batch = batch st @ [Put (to_string (field doc ''_key'')) (json_encode value)]\<rparr>)"
  by (auto simp: packVisitor_def batch_put_def getp_def Let_def split: sum.splits if_splits)

lemma packDoc_terminates_aux:
  "\<exists>r. applyHierarchy packVisitor (Apply doc collection options) st = Some r"
proof (induction doc arbitrary: collection options st rule: measure_induct_rule[where f = size])
  case (less doc)
  show ?case
  proof (cases "packVisitor doc collection (default_options options) st")
    case (Inl e)
    then show ?thesis by (simp add: applyHierarchy_Apply)
  next
    case (Inr p)
    obtain doc' no st' where p: "p = (doc', no, st')" by (cases p)
    from packVisitor_Inr[OF Inr[unfolded p]] have doc': "doc' = delete_field doc ''_key''" by simp
    have "\<exists>r. applyHierarchy packVisitor
            (Fields (hierarchy_entries collection) doc' (nullish_default no)) st' = Some r"
    proof (rule Fields_terminates[OF hierarchy_entries_distinct])
      fix name isArr x s
      assume "x \<in> embedded_nodes isArr (field doc' name)"
      then have "x \<in> embedded_nodes isArr (field doc name)"
        by (auto simp: doc' field_delete_field embedded_nodes_def split: if_splits)
      then have "size x < size doc" by (rule size_embedded_node)
      from less[OF this] show "\<exists>r. applyHierarchy packVisitor (Apply x name (nullish_default no)) s = Some r" .
    qed
    with Inr p show ?thesis by (simp add: applyHierarchy_Apply)
  qed
qed


text \<open>
  The two loops of the walker come to one pass over the embedded values of the document
  as the visitor has left it, in the order of the schema and of the arrays, each walked
  with the context that the visitor returned.
\<close>

lemma forget_simps [simp]:
  "forget None = None"
  "forget (Some (Inl e)) = Some (Inl e)"
  "forget (Some (Inr (v, s))) = Some (Inr s)"
  by (simp_all add: forget_def)

lemma forget_and_then:
  "forget (and_then m f) = and_then m (\<lambda>x. forget (f x))"
  by (cases m) (auto simp: forget_def and_then_def split: sum.splits)

lemma and_then_assoc:
  "and_then (and_then m f) g = and_then m (\<lambda>x. and_then (f x) g)"
  by (cases m) (auto simp: and_then_def split: sum.splits)

lemma and_then_forget:
  "and_then (forget m) f = and_then m (\<lambda>(v, s). f s)"
  by (cases m) (auto simp: forget_def and_then_def split: sum.splits)

lemma and_then_ext:
  "(\<And>x. m = Some (Inr x) \<Longrightarrow> f x = g x) \<Longrightarrow> and_then m f = and_then m g"
  by (cases m) (auto simp: and_then_def split: sum.splits)

lemma visit_each_append:
  "visit_each fn (xs @ ys) ctx s = and_then (visit_each fn xs ctx s) (\<lambda>s'. visit_each fn ys ctx s')"
proof (induction xs arbitrary: s)
  case Nil
  then show ?case by simp
next
  case (Cons p xs)
  obtain x name where p: "p = (x, name)" by (cases p)
  have "visit_each fn ((x, name) # xs @ ys) ctx s
      = and_then (applyHierarchy fn (Apply x name ctx) s)
          (\<lambda>(x', s'). and_then (visit_each fn xs ctx s') (\<lambda>s'. visit_each fn ys ctx s'))"
    unfolding visit_each.simps by (rule and_then_ext) (auto simp: Cons.IH)
  also have "\<dots> = and_then (visit_each fn ((x, name) # xs) ctx s) (\<lambda>s'. visit_each fn ys ctx s')"
    unfolding visit_each.simps and_then_assoc by (rule and_then_ext) auto
  finally show ?case by (simp add: p)
qed

lemma Elems_flat:
  "forget (applyHierarchy fn (Elems xs name ctx) s) = visit_each fn (map (\<lambda>x. (x, name)) xs) ctx s"
proof (induction xs arbitrary: s)
  case Nil
  then show ?case by (simp add: applyHierarchy_Elems_Nil)
next
  case (Cons x xs)
  have inner: "forget (and_then (applyHierarchy fn (Elems xs name ctx) s')
            (\<lambda>(v, s''). Some (Inr (JArr (x' # elements v), s''))))
      = visit_each fn (map (\<lambda>x. (x, name)) xs) ctx s'" for x' s'
  proof -
    have "forget (and_then m (\<lambda>(v, s''). Some (Inr (JArr (x' # elements v), s'')))) = forget m"
      for m :: "(error + json \<times> 'a) option"
      by (cases m) (auto simp: and_then_def split: sum.splits)
    then show ?thesis by (simp only: Cons.IH)
  qed
  have "forget (applyHierarchy fn (Elems (x # xs) name ctx) s)
      = and_then (applyHierarchy fn (Apply x name ctx) s)
          (\<lambda>(x', s'). visit_each fn (map (\<lambda>x. (x, name)) xs) ctx s')"
    unfolding applyHierarchy_Elems_Cons forget_and_then
    by (rule and_then_ext) (auto simp: inner)
  then show ?case by simp
qed

lemma child_list_put_field:
  "n \<notin> fst ` set fs \<Longrightarrow> child_list fs (put_field doc n v) = child_list fs doc"
proof -
  assume fresh: "n \<notin> fst ` set fs"
  have "map (\<lambda>(name, isArr). map (\<lambda>x. (x, name)) (embedded_list isArr (field (put_field doc n v) name))) fs
      = map (\<lambda>(name, isArr). map (\<lambda>x. (x, name)) (embedded_list isArr (field doc name))) fs"
  proof (rule map_cong[OF refl])
    fix e assume "e \<in> set fs"
    with fresh have "fst e \<noteq> n" by auto
    then show "(case e of (name, isArr) \<Rightarrow> map (\<lambda>x. (x, name)) (embedded_list isArr (field (put_field doc n v) name)))
        = (case e of (name, isArr) \<Rightarrow> map (\<lambda>x. (x, name)) (embedded_list isArr (field doc name)))"
      by (cases e) (simp add: field_put_field_other)
  qed
  then show ?thesis unfolding child_list_def by (rule arg_cong)
qed

lemma nullish_put_field: "nullish (put_field doc n v) = nullish doc"
  by (cases doc) (simp_all add: nullish_def)

lemma Fields_flat:
  assumes "\<not> nullish doc" and "distinct (map fst fs)"
  shows "forget (applyHierarchy fn (Fields fs doc ctx) s) = visit_each fn (child_list fs doc) ctx s"
  using assms
proof (induction fs arbitrary: doc s)
  case Nil
  then show ?case by (simp add: applyHierarchy_Fields_Nil child_list_def)
next
  case (Cons e rest)
  obtain n a where e: "e = (n, a)" by (cases e)
  from Cons.prems(2) have dist: "distinct (map fst rest)" and fresh: "n \<notin> fst ` set rest"
    by (auto simp: e)
  let ?v = "field doc n"
  have split: "child_list ((n, a) # rest) doc = map (\<lambda>x. (x, n)) (embedded_list a ?v) @ child_list rest doc"
    by (simp add: child_list_def e)
  have rest: "forget (applyHierarchy fn (Fields rest (put_field doc n v) ctx) s')
            = visit_each fn (child_list rest doc) ctx s'" for v s'
    using Cons.IH[OF _ dist, of "put_field doc n v" s'] Cons.prems(1) fresh
    by (simp add: nullish_put_field child_list_put_field)
  have step: "forget (and_then m (\<lambda>(v, s'). applyHierarchy fn (Fields rest (put_field doc n v) ctx) s'))
      = and_then (forget m) (\<lambda>s'. visit_each fn (child_list rest doc) ctx s')"
    for m :: "(error + json \<times> 'a) option"
    unfolding forget_and_then and_then_forget by (rule and_then_ext) (auto simp: rest)
  show ?case
  proof (cases "a \<and> is_array ?v")
    case True
    then have w: "embedded_walk a doc n ctx = Inr (Some (Elems (elements ?v) n ctx))"
      using Cons.prems(1) by (simp add: embedded_walk_def getp_def)
    from True have l: "embedded_list a ?v = elements ?v" by (simp add: embedded_list_def)
    show ?thesis
      unfolding e split l visit_each_append applyHierarchy_Fields_Cons w
      by (simp add: step Elems_flat)
  next
    case False
    show ?thesis
    proof (cases "truthy ?v")
      case True
      with False have w: "embedded_walk a doc n ctx = Inr (Some (Apply ?v n ctx))"
        using Cons.prems(1) by (auto simp: embedded_walk_def getp_def)
      from True False have l: "embedded_list a ?v = [?v]" by (auto simp: embedded_list_def)
      have one: "visit_each fn [(?v, n)] ctx s = forget (applyHierarchy fn (Apply ?v n ctx) s)"
        unfolding visit_each.simps forget_def by (rule and_then_ext) auto
      show ?thesis
        unfolding e split l visit_each_append applyHierarchy_Fields_Cons w
        by (simp add: step one del: visit_each.simps)
    next
      case F: False
      with False have w: "embedded_walk a doc n ctx = Inr None"
        using Cons.prems(1) by (auto simp: embedded_walk_def getp_def)
      from F False have l: "embedded_list a ?v = []" by (auto simp: embedded_list_def)
      from Cons.IH[OF Cons.prems(1) dist, of s] show ?thesis
        unfolding e split l
        by (simp add: applyHierarchy_Fields_Cons w)
    qed
  qed
qed

lemma Apply_flat:
  assumes "fn doc c (default_options opts) s = Inr (doc', no, s')" and "\<not> nullish doc'"
  shows "forget (applyHierarchy fn (Apply doc c opts) s)
       = visit_each fn (child_list (hierarchy_entries c) doc') (nullish_default no) s'"
  using assms Fields_flat[OF assms(2) hierarchy_entries_distinct]
  by (simp add: applyHierarchy_Apply)







section \<open>Duplicate keys\<close>

lemma packDoc_terminates: "\<exists>r. packDoc doc collection st = Some r"
  unfolding packDoc_def by (rule packDoc_terminates_aux)

lemma packFile_terminates: "\<exists>r. packFile tE file st = Some r"
proof -
  have "\<exists>r. and_then (packDoc d c st) (\<lambda>(d, st'). Some (Inr st')) = Some r" for d c
    using packDoc_terminates[of d c st]
    by (auto simp: and_then_eq_Some split: prod.splits) (metis old.sum.exhaust surj_pair)
  then show ?thesis
    unfolding packFile_def
    by (auto split: option.splits sum.splits json.splits verdict.splits prod.splits simp: Let_def)
qed

lemma packFiles_terminates: "\<exists>r. packFiles tE files st = Some r"
proof (induction files arbitrary: st)
  case Nil
  then show ?case by simp
next
  case (Cons f fs)
  obtain r where r: "packFile tE f st = Some r"
    using packFile_terminates by blast
  show ?case
  proof (cases r)
    case (Inl e)
    with r show ?thesis by simp
  next
    case (Inr st')
    with r Cons.IH[of st'] show ?thesis by simp
  qed
qed

lemma packFiles_append:
  "packFiles tE (xs @ ys) st =
     and_then (packFiles tE xs st) (\<lambda>st'. packFiles tE ys st')"
proof (induction xs arbitrary: st)
  case Nil
  then show ?case by simp
next
  case (Cons x xs)
  show ?case
  proof (cases "packFile tE x st")
    case None
    then show ?thesis by simp
  next
    case (Some r)
    then show ?thesis by (cases r) (simp_all add: Cons.IH)
  qed
qed

lemma packVisitor_seen_mono:
  "packVisitor doc c opts s = Inr (doc', no, s') \<Longrightarrow> seenKeys s \<subseteq> seenKeys s'"
  by (drule packVisitor_Inr) auto

lemma walk_seen_mono:
  assumes "applyHierarchy packVisitor t s = Some (Inr (v, s'))"
  shows "seenKeys s \<subseteq> seenKeys s'"
  by (rule applyHierarchy_invariant[OF assms, where R = "\<lambda>s s'. seenKeys s \<subseteq> seenKeys s'"])
     (auto dest: packVisitor_seen_mono)

lemma put_keys_snoc: "put_keys (b @ [Put k v]) = insert k (put_keys b)"
  by (auto simp: put_keys_def)

lemma packVisitor_inv:
  assumes "packVisitor doc c opts s = Inr (doc', no, s')" and "pack_inv s"
  shows "pack_inv s'"
proof -
  from packVisitor_Inr[OF assms(1)] obtain k v where
    s': "s' = \<lparr>seenKeys = insert k (seenKeys s), batch = batch s @ [Put (to_string k) v]\<rparr>"
    by blast
  from assms(2) show ?thesis
    unfolding pack_inv_def s' by (simp add: put_keys_snoc)
qed

lemma walk_inv:
  assumes "applyHierarchy packVisitor t s = Some (Inr (v, s'))" and "pack_inv s"
  shows "pack_inv s'"
proof -
  have "pack_inv s \<longrightarrow> pack_inv s'"
    by (rule applyHierarchy_invariant[OF assms(1), where R = "\<lambda>s s'. pack_inv s \<longrightarrow> pack_inv s'"])
       (auto dest: packVisitor_inv)
  with assms(2) show ?thesis by simp
qed

lemma packFile_Inr:
  assumes "packFile tE file st = Some (Inr st')"
  shows "seenKeys st \<subseteq> seenKeys st'"
    and "pack_inv st \<Longrightarrow> pack_inv st'"
    and "resolved_key tE file = Some k \<Longrightarrow> JStr k \<in> seenKeys st'"
proof -
  from assms obtain doc k0 r where doc: "parsed file = Some doc"
    and k0: "getp doc ''_key'' = Inr (JStr k0)"
    and tr: "run_transform tE doc = Inr r"
    by (auto simp: packFile_def Let_def split: option.splits sum.splits json.splits)
  obtain doc' vd where r: "r = (doc', vd)" by (cases r)
  show "seenKeys st \<subseteq> seenKeys st'"
    using assms doc k0 tr r
    by (auto simp: packFile_def packDoc_def Let_def and_then_Inr split: verdict.splits dest: walk_seen_mono)
  show "pack_inv st \<Longrightarrow> pack_inv st'"
    using assms doc k0 tr r
    by (auto simp: packFile_def packDoc_def Let_def and_then_Inr split: verdict.splits dest: walk_inv)
  show "JStr k \<in> seenKeys st'" if res: "resolved_key tE file = Some k"
  proof -
    from res doc k0 tr r have keep: "vd = Keep" and k: "getp doc' ''_key'' = Inr (JStr k)"
      by (auto simp: resolved_key_def split: verdict.splits sum.splits json.splits)
    let ?c = "to_string (nth_or_undefined (split_on CHR ''!'' k0) 1)"
    from assms doc k0 tr r keep obtain d where
      run: "applyHierarchy packVisitor (Apply doc' ?c JUndefined) st = Some (Inr (d, st'))"
      by (auto simp: packFile_def packDoc_def Let_def and_then_Inr)
    then obtain d1 no s1 where v: "packVisitor doc' ?c (default_options JUndefined) st = Inr (d1, no, s1)"
      and rest: "applyHierarchy packVisitor (Fields (hierarchy_entries ?c) d1 (nullish_default no)) s1
                   = Some (Inr (d, st'))"
      by (auto simp: applyHierarchy_Apply split: sum.splits)
    from packVisitor_Inr[OF v] k have "JStr k \<in> seenKeys s1" by auto
    with walk_seen_mono[OF rest] show ?thesis by auto
  qed
qed

lemma packFiles_Inr:
  assumes "packFiles tE files st = Some (Inr st')"
  shows "seenKeys st \<subseteq> seenKeys st'"
    and "pack_inv st \<Longrightarrow> pack_inv st'"
    and "file \<in> set files \<Longrightarrow> resolved_key tE file = Some k \<Longrightarrow> JStr k \<in> seenKeys st'"
  using assms
proof (induction files arbitrary: st)
  case Nil
  { case 1 then show ?case by simp }
  { case 2 then show ?case by simp }
  { case 3 then show ?case by simp }
next
  case (Cons f fs)
  { case 1
    then obtain s1 where a: "packFile tE f st = Some (Inr s1)"
      and b: "packFiles tE fs s1 = Some (Inr st')"
      by (auto simp: and_then_Inr)
    from packFile_Inr(1)[OF a] Cons.IH(1)[OF b] show ?case by auto }
  { case 2
    then obtain s1 where a: "packFile tE f st = Some (Inr s1)"
      and b: "packFiles tE fs s1 = Some (Inr st')"
      by (auto simp: and_then_Inr)
    from packFile_Inr(2)[OF a] Cons.IH(2)[OF _ b] 2 show ?case by auto }
  { case 3
    then obtain s1 where a: "packFile tE f st = Some (Inr s1)"
      and b: "packFiles tE fs s1 = Some (Inr st')"
      by (auto simp: and_then_Inr)
    from 3 packFile_Inr(3)[OF a] Cons.IH(1)[OF b] Cons.IH(3)[OF _ _ b] show ?case by auto }
qed

lemma packFile_duplicate:
  assumes "resolved_key tE file = Some k" and "JStr k \<in> seenKeys st"
  shows "packFile tE file st = Some (Inl (DuplicateKey (JStr k)))"
proof -
  from assms(1) obtain doc k0 doc' where doc: "parsed file = Some doc"
    and k0: "getp doc ''_key'' = Inr (JStr k0)"
    and tr: "run_transform tE doc = Inr (doc', Keep)"
    and k: "getp doc' ''_key'' = Inr (JStr k)"
    by (auto simp: resolved_key_def split: option.splits sum.splits json.splits verdict.splits)
  from k assms(2) have "packVisitor doc' c opts st = Inl (DuplicateKey (JStr k))" for c opts
    by (simp add: packVisitor_def Let_def)
  then show ?thesis
    by (simp add: packFile_def doc k0 tr Let_def packDoc_def applyHierarchy_Apply)
qed

text \<open>
  C1. When two source files of one run resolve to the same composite key, the run
  fails and the store is left as it was, since the batch is written only after every file
  has been staged. If the files before the second one were staged without error, the
  failure is the duplicate-key error, which reports the key.
\<close>

theorem duplicate_key_aborts:
  assumes "f1 \<in> set pre"
    and "resolved_key tE f1 = Some k"
    and "resolved_key tE f2 = Some k"
  shows "(\<exists>e. compileClassicLevel tE (pre @ f2 # post) db = Some (Inl e, db))
       \<and> (\<forall>st. packFiles tE pre initial_state = Some (Inr st) \<longrightarrow>
             compileClassicLevel tE (pre @ f2 # post) db
               = Some (Inl (DuplicateKey (JStr k)), db))"
proof -
  have dup: "packFiles tE (pre @ f2 # post) initial_state = Some (Inl (DuplicateKey (JStr k)))"
    if st: "packFiles tE pre initial_state = Some (Inr st)" for st
  proof -
    from packFiles_Inr(3)[OF st assms(1,2)] have "JStr k \<in> seenKeys st" .
    from packFile_duplicate[OF assms(3) this] st show ?thesis
      by (simp add: packFiles_append)
  qed
  obtain r where r: "packFiles tE pre initial_state = Some r"
    using packFiles_terminates by blast
  have "\<exists>e. packFiles tE (pre @ f2 # post) initial_state = Some (Inl e)"
  proof (cases r)
    case (Inl e)
    with r show ?thesis by (simp add: packFiles_append)
  next
    case (Inr st)
    with r dup show ?thesis by blast
  qed
  then have "\<exists>e. compileClassicLevel tE (pre @ f2 # post) db = Some (Inl e, db)"
    by (auto simp: compileClassicLevel_def)
  moreover have "compileClassicLevel tE (pre @ f2 # post) db
               = Some (Inl (DuplicateKey (JStr k)), db)"
    if "packFiles tE pre initial_state = Some (Inr st)" for st
    using dup[OF that] by (simp add: compileClassicLevel_def)
  ultimately show ?thesis by blast
qed


theorem duplicate_key_aborts_witness:
  "resolved_key None \<lparr>path = ''a.json'', parsed = Some (JObj [(''_key'', JStr ''!items!x''), (''_id'', JStr ''x'')])\<rparr>
     = Some ''!items!x''
   \<and> compileClassicLevel None
       [\<lparr>path = ''a.json'', parsed = Some (JObj [(''_key'', JStr ''!items!x''), (''_id'', JStr ''x'')])\<rparr>,
        \<lparr>path = ''b.json'', parsed = Some (JObj [(''_key'', JStr ''!items!x''), (''_id'', JStr ''y'')])\<rparr>]
       [(''!items!old'', JObj [(''_id'', JStr ''old'')])]
     = Some (Inl (DuplicateKey (JStr ''!items!x'')), [(''!items!old'', JObj [(''_id'', JStr ''old'')])])"
  using duplicate_key_aborts
    [of "\<lparr>path = ''a.json'', parsed = Some (JObj [(''_key'', JStr ''!items!x''), (''_id'', JStr ''x'')])\<rparr>"
        "[\<lparr>path = ''a.json'', parsed = Some (JObj [(''_key'', JStr ''!items!x''), (''_id'', JStr ''x'')])\<rparr>]"
        None "''!items!x''"
        "\<lparr>path = ''b.json'', parsed = Some (JObj [(''_key'', JStr ''!items!x''), (''_id'', JStr ''y'')])\<rparr>"
        "[]" "[(''!items!old'', JObj [(''_id'', JStr ''old'')])]"]
  by (simp add: resolved_key_def js_simps schema_simps compile_simps walk_simps)


section \<open>The batch: stale keys and compaction\<close>

lemma keys_store_del: "set (db_keys (store_del key db)) = set (db_keys db) - {key}"
  by (auto simp: db_keys_def store_del_def)

lemma keys_store_put: "set (db_keys (store_put key value db)) = insert key (set (db_keys db))"
  by (auto simp: db_keys_def store_put_def store_del_def set_insort_key)

lemma store_ok_del: "store_ok db \<Longrightarrow> store_ok (store_del key db)"
  unfolding store_ok_def db_keys_def store_del_def
  by (simp add: sorted_filter distinct_map_filter)

lemma distinct_insort_key_fst:
  "distinct (map fst xs) \<Longrightarrow> k \<notin> fst ` set xs \<Longrightarrow> distinct (map fst (insort_key fst (k, v) xs))"
  by (induction xs) (auto simp: set_insort_key)

lemma store_ok_put: "store_ok db \<Longrightarrow> store_ok (store_put key value db)"
proof -
  assume ok: "store_ok db"
  let ?d = "store_del key db"
  from store_ok_del[OF ok] have s: "sorted (map fst ?d)" and d: "distinct (map fst ?d)"
    by (simp_all add: store_ok_def db_keys_def)
  have fresh: "key \<notin> fst ` set ?d" by (auto simp: store_del_def)
  from s have "sorted (map fst (insort_key fst (key, value) ?d))"
    by (simp add: sorted_insort_key)
  with distinct_insort_key_fst[OF d fresh] show ?thesis
    by (simp add: store_ok_def db_keys_def store_put_def)
qed

lemma store_ok_batch_write: "store_ok db \<Longrightarrow> store_ok (batch_write ops db)"
  unfolding batch_write_def
proof (induction ops arbitrary: db)
  case Nil
  then show ?case by simp
next
  case (Cons op ops)
  then show ?case by (cases op) (simp_all add: store_ok_put store_ok_del)
qed

lemma keys_write_puts:
  "\<forall>op \<in> set ops. \<exists>k v. op = Put k v \<Longrightarrow>
     set (db_keys (batch_write ops db)) = set (db_keys db) \<union> put_keys ops"
  unfolding batch_write_def
proof (induction ops arbitrary: db)
  case Nil
  then show ?case by (simp add: put_keys_def)
next
  case (Cons op ops)
  then obtain k v where op: "op = Put k v" by auto
  from Cons show ?case by (auto simp: op keys_store_put put_keys_def)
qed

lemma keys_write_dels:
  "set (db_keys (batch_write (map Del ks) db)) = set (db_keys db) - set ks"
  unfolding batch_write_def
  by (induction ks arbitrary: db) (auto simp: keys_store_del)

lemma batch_write_append: "batch_write (a @ b) db = batch_write b (batch_write a db)"
  by (simp add: batch_write_def)

lemma pack_inv_initial: "pack_inv initial_state"
  by (simp add: pack_inv_def initial_state_def put_keys_def)

lemma keys_after_compile:
  assumes "pack_inv st"
  shows "set (db_keys (batch_write (stageDeletes db st) db))
       = (set (db_keys db) \<union> to_string ` seenKeys st)
           - {key \<in> set (db_keys db). JStr key \<notin> seenKeys st}"
proof -
  from assms have seen: "put_keys (batch st) = to_string ` seenKeys st"
    and puts: "\<forall>op \<in> set (batch st). \<exists>k v. op = Put k v"
    by (simp_all add: pack_inv_def)
  show ?thesis
    by (simp add: stageDeletes_def batch_write_append keys_write_dels keys_write_puts[OF puts] seen)
qed

text \<open>
  C3. In a run whose files are all staged, the one batch that is written consists
  of the staged puts followed by a delete for every key of the destination store that the
  seen-set does not hold. After the write such a key is gone from the store, so a key left
  by an earlier compile and not produced again by this source set is removed; a key that
  the seen-set holds is in the store, and the store holds no key but the seen ones, as the
  batch has stored them.
\<close>

theorem stale_keys_deleted:
  assumes "packFiles tE files initial_state = Some (Inr st)"
  shows "compileClassicLevel tE files db
           = Some (Inr (compactClassicLevel (batch_write (stageDeletes db st) db)),
                   batch_write (stageDeletes db st) db)
       \<and> stageDeletes db st
           = batch st @ map Del (filter (\<lambda>key. JStr key \<notin> seenKeys st) (db_keys db))
       \<and> (\<forall>key \<in> set (db_keys db). JStr key \<notin> seenKeys st \<longrightarrow>
             Del key \<in> set (stageDeletes db st)
             \<and> key \<notin> set (db_keys (batch_write (stageDeletes db st) db)))
       \<and> (\<forall>key. JStr key \<in> seenKeys st \<longrightarrow>
             key \<in> set (db_keys (batch_write (stageDeletes db st) db)))
       \<and> set (db_keys (batch_write (stageDeletes db st) db)) \<subseteq> to_string ` seenKeys st"
proof -
  from packFiles_Inr(2)[OF assms pack_inv_initial] have inv: "pack_inv st" .
  note keys = keys_after_compile[OF inv, of db]
  have run: "compileClassicLevel tE files db
           = Some (Inr (compactClassicLevel (batch_write (stageDeletes db st) db)),
                   batch_write (stageDeletes db st) db)"
    using assms by (simp add: compileClassicLevel_def Let_def)
  have batch: "stageDeletes db st
           = batch st @ map Del (filter (\<lambda>key. JStr key \<notin> seenKeys st) (db_keys db))"
    by (simp add: stageDeletes_def)
  have stale: "Del key \<in> set (stageDeletes db st)
             \<and> key \<notin> set (db_keys (batch_write (stageDeletes db st) db))"
    if "key \<in> set (db_keys db)" "JStr key \<notin> seenKeys st" for key
    using that unfolding keys by (auto simp: stageDeletes_def)
  have kept: "key \<in> set (db_keys (batch_write (stageDeletes db st) db))"
    if "JStr key \<in> seenKeys st" for key
  proof -
    from that have "to_string (JStr key) \<in> to_string ` seenKeys st" by (rule imageI)
    with that show ?thesis unfolding keys by simp
  qed
  have only: "set (db_keys (batch_write (stageDeletes db st) db)) \<subseteq> to_string ` seenKeys st"
  proof
    fix key
    assume "key \<in> set (db_keys (batch_write (stageDeletes db st) db))"
    then have "key \<in> to_string ` seenKeys st \<or> JStr key \<in> seenKeys st"
      unfolding keys by auto
    moreover have "key \<in> to_string ` seenKeys st" if "JStr key \<in> seenKeys st"
      using imageI[OF that, of to_string] by simp
    ultimately show "key \<in> to_string ` seenKeys st" by blast
  qed
  from run batch stale kept only show ?thesis by blast
qed

theorem stale_keys_deleted_witness:
  "compileClassicLevel None [item_file ''a'', item_file ''b''] []
     = Some (Inr (Some (''!items!a'', ''!items!b'')),
             [(''!items!a'', item_value ''a''), (''!items!b'', item_value ''b'')])
   \<and> packFiles None [item_file ''a''] initial_state
     = Some (Inr \<lparr>seenKeys = {JStr ''!items!a''}, batch = [Put ''!items!a'' (item_value ''a'')]\<rparr>)
   \<and> compileClassicLevel None [item_file ''a'']
       [(''!items!a'', item_value ''a''), (''!items!b'', item_value ''b'')]
     = Some (Inr (Some (''!items!a'', ''!items!a'')), [(''!items!a'', item_value ''a'')])
   \<and> Del ''!items!b''
       \<in> set (stageDeletes [(''!items!a'', item_value ''a''), (''!items!b'', item_value ''b'')]
              \<lparr>seenKeys = {JStr ''!items!a''}, batch = [Put ''!items!a'' (item_value ''a'')]\<rparr>)"
proof -
  have run: "packFiles None [item_file ''a''] initial_state
     = Some (Inr \<lparr>seenKeys = {JStr ''!items!a''}, batch = [Put ''!items!a'' (item_value ''a'')]\<rparr>)"
    by (simp add: item_file_def item_value_def js_simps schema_simps compile_simps walk_simps)
  have first: "compileClassicLevel None [item_file ''a'', item_file ''b''] []
     = Some (Inr (Some (''!items!a'', ''!items!b'')),
             [(''!items!a'', item_value ''a''), (''!items!b'', item_value ''b'')])"
    by (simp add: item_file_def item_value_def js_simps schema_simps compile_simps walk_simps)
  from stale_keys_deleted[OF run,
      of "[(''!items!a'', item_value ''a''), (''!items!b'', item_value ''b'')]"]
  have "compileClassicLevel None [item_file ''a'']
       [(''!items!a'', item_value ''a''), (''!items!b'', item_value ''b'')]
     = Some (Inr (Some (''!items!a'', ''!items!a'')), [(''!items!a'', item_value ''a'')])
    \<and> Del ''!items!b''
       \<in> set (stageDeletes [(''!items!a'', item_value ''a''), (''!items!b'', item_value ''b'')]
              \<lparr>seenKeys = {JStr ''!items!a''}, batch = [Put ''!items!a'' (item_value ''a'')]\<rparr>)"
    by (simp add: item_value_def compile_simps)
  with run first show ?thesis by simp
qed

text \<open>
  A key that is not a string is stored as the text that \<open>String\<close> makes of it,
  while the seen-set holds the key itself. When the destination already holds the text,
  for instance from the previous compile of the same source, the delete staged for it comes
  after the put, and the entry is removed.
\<close>

lemma numeric_key_removed_on_recompile:
  "compileClassicLevel None [\<lparr>path = ''Hero.json'', parsed = Some numbered_doc\<rparr>] []
     = Some (Inr (Some (''!actors!abc'', ''5'')),
             [(''!actors!abc'',
               JObj [(''_id'', JStr ''abc''), (''items'', JArr [JStr ''i1'']), (''effects'', JArr [])]),
              (''5'', JObj [(''_id'', JStr ''i1''), (''effects'', JArr [])])])
   \<and> compileClassicLevel None [\<lparr>path = ''Hero.json'', parsed = Some numbered_doc\<rparr>]
        [(''!actors!abc'',
          JObj [(''_id'', JStr ''abc''), (''items'', JArr [JStr ''i1'']), (''effects'', JArr [])]),
         (''5'', JObj [(''_id'', JStr ''i1''), (''effects'', JArr [])])]
     = Some (Inr (Some (''!actors!abc'', ''!actors!abc'')),
             [(''!actors!abc'',
               JObj [(''_id'', JStr ''abc''), (''items'', JArr [JStr ''i1'']), (''effects'', JArr [])])])"
  by (simp add: numbered_doc_def js_simps schema_simps compile_simps walk_simps string_of_int_def)

lemma sorted_hd_Min: "sorted xs \<Longrightarrow> xs \<noteq> [] \<Longrightarrow> hd xs = Min (set xs)"
  by (cases xs) (auto intro!: Min_eqI[symmetric])

lemma sorted_le_last: "sorted xs \<Longrightarrow> x \<in> set xs \<Longrightarrow> x \<le> last xs"
  by (induction xs) auto

lemma sorted_last_Max: "sorted xs \<Longrightarrow> xs \<noteq> [] \<Longrightarrow> last xs = Max (set xs)"
  by (auto intro!: Max_eqI[symmetric] simp: sorted_le_last)

lemma compactClassicLevel_nonempty:
  assumes "db_keys db = k # ks"
  shows "compactClassicLevel db
       = (if k \<noteq> [] \<and> last (k # ks) \<noteq> [] then Some (k, last (k # ks)) else None)"
proof -
  have "rev (k # ks) = last (k # ks) # rev (butlast (k # ks))"
    by (metis append_butlast_last_id list.distinct(1) rev.simps(2) rev_append rev_rev_ident rev_singleton_conv append_Nil)
  then obtain ls where rv: "rev (db_keys db) = last (k # ks) # ls"
    using assms by simp
  show ?thesis
    unfolding compactClassicLevel_def Let_def rv
    by (simp add: assms truthy_key_def)
qed

lemma compactClassicLevel_span:
  assumes "store_ok db" and "[] \<notin> set (db_keys db)"
  shows "compactClassicLevel db
       = (if db = [] then None else Some (Min (set (db_keys db)), Max (set (db_keys db))))"
proof (cases "db_keys db")
  case Nil
  then show ?thesis by (simp add: compactClassicLevel_def truthy_key_def db_keys_def)
next
  case (Cons k ks)
  then have ne: "db \<noteq> []" by (auto simp: db_keys_def)
  from assms(1) Cons have s: "sorted (k # ks)" by (simp add: store_ok_def)
  from assms(2) Cons have k: "k \<noteq> []" by auto
  have "last (k # ks) \<in> set (k # ks)" by (rule last_in_set) simp
  with assms(2) Cons have l: "last (k # ks) \<noteq> []" by metis
  have mn: "Min (set (k # ks)) = k"
    using sorted_hd_Min[OF s] by simp
  have mx: "Max (set (k # ks)) = last (k # ks)"
    using sorted_last_Max[OF s] by simp
  show ?thesis
    unfolding compactClassicLevel_nonempty[OF Cons] Cons mn mx using k l ne by simp
qed

text \<open>
  The guard of \<open>compactClassicLevel\<close> is a test for truthiness: a store whose first
  key is the empty string is not compacted although it holds a key.
\<close>

lemma compaction_skipped_for_empty_key: "compactClassicLevel [([], v)] = None"
  by (simp add: compactClassicLevel_def truthy_key_def db_keys_def)

text \<open>
  C9. After the batch is written, compaction is requested for the span from the
  least to the greatest key of the store, read as the first and the last key of the ordered
  iteration; a store left without keys is not compacted. The guard of the source tests the
  two keys for truthiness, so the statement is for stores whose keys are non-empty strings,
  as every composite key is.
\<close>

theorem compaction_spans_store:
  assumes "store_ok db"
    and "compileClassicLevel tE files db = Some (Inr c, db')"
    and "[] \<notin> set (db_keys db')"
  shows "store_ok db'
       \<and> c = (if db' = [] then None else Some (Min (set (db_keys db')), Max (set (db_keys db'))))"
proof -
  from assms(2) obtain st where db': "db' = batch_write (stageDeletes db st) db"
    and c: "c = compactClassicLevel db'"
    by (auto simp: compileClassicLevel_def Let_def split: option.splits sum.splits)
  from store_ok_batch_write[OF assms(1)] have ok: "store_ok db'" by (simp add: db')
  from compactClassicLevel_span[OF ok assms(3)] c ok show ?thesis by simp
qed


theorem compaction_spans_store_witness:
  "store_ok [(''!items!z'', item_value ''z'')]
   \<and> compileClassicLevel None [item_file ''b'', item_file ''a''] [(''!items!z'', item_value ''z'')]
     = Some (Inr (Some (''!items!a'', ''!items!b'')),
             [(''!items!a'', item_value ''a''), (''!items!b'', item_value ''b'')])
   \<and> Min (set (db_keys [(''!items!a'', item_value ''a''), (''!items!b'', item_value ''b'')])) = ''!items!a''
   \<and> Max (set (db_keys [(''!items!a'', item_value ''a''), (''!items!b'', item_value ''b'')])) = ''!items!b''"
proof -
  have ok: "store_ok [(''!items!z'', item_value ''z'')]"
    by (simp add: store_ok_def db_keys_def)
  have run: "compileClassicLevel None [item_file ''b'', item_file ''a''] [(''!items!z'', item_value ''z'')]
     = Some (Inr (Some (''!items!a'', ''!items!b'')),
             [(''!items!a'', item_value ''a''), (''!items!b'', item_value ''b'')])"
    by (simp add: item_file_def item_value_def js_simps schema_simps compile_simps walk_simps)
  have ne: "[] \<notin> set (db_keys [(''!items!a'', item_value ''a''), (''!items!b'', item_value ''b'')])"
    by (simp add: db_keys_def)
  from compaction_spans_store[OF ok run ne] ok run show ?thesis by simp
qed


section \<open>Embedded documents in the compiled store\<close>

text \<open>
  C2, as stated, fails. The visitor stages for the actor a value in which the
  item is replaced by its id, and it then visits the item itself and stages it under the
  item's own \<open>_key\<close>. The item of the scenario carries no \<open>_key\<close>, so
  that second put is rejected and the run ends with an error, the store still empty.
\<close>

theorem scenario_not_stored_inline:
  "compileClassicLevel None [\<lparr>path = ''Hero.json'', parsed = Some scenario_doc\<rparr>] []
     = Some (Inl InvalidKey, [])
   \<and> packVisitor scenario_doc ''actors'' (JObj []) initial_state
     = Inr (delete_field scenario_doc ''_key'', JUndefined,
            \<lparr>seenKeys = {JStr ''!actors!abc''},
             batch = [Put ''!actors!abc''
                        (JObj [(''_id'', JStr ''abc''), (''name'', JStr ''Hero''),
                               (''items'', JArr [JStr ''i1'']), (''effects'', JArr [])])]\<rparr>)"
  by (simp add: scenario_doc_def js_simps schema_simps compile_simps walk_simps)

lemma stage_all_append:
  "stage_all (xs @ ys) st = (case stage_all xs st of Inl e \<Rightarrow> Inl e | Inr st' \<Rightarrow> stage_all ys st')"
  by (induction xs st rule: stage_all.induct) (auto split: sum.splits)

lemma packVisitor_options: "packVisitor doc c opts st = packVisitor doc c opts' st"
  by (simp add: packVisitor_def)

lemma child_list_delete_key:
  "child_list (hierarchy_entries c) (delete_field doc ''_key'') = child_list (hierarchy_entries c) doc"
proof -
  have "map (\<lambda>(name, isArr). map (\<lambda>x. (x, name)) (embedded_list isArr (field (delete_field doc ''_key'') name)))
          (hierarchy_entries c)
      = map (\<lambda>(name, isArr). map (\<lambda>x. (x, name)) (embedded_list isArr (field doc name)))
          (hierarchy_entries c)"
  proof (rule map_cong[OF refl])
    fix e assume "e \<in> set (hierarchy_entries c)"
    then have "fst e \<noteq> ''_key''" using hierarchy_names_not_key[of "fst e" "snd e" c] by simp
    then show "(case e of (name, isArr) \<Rightarrow> map (\<lambda>x. (x, name)) (embedded_list isArr (field (delete_field doc ''_key'') name)))
        = (case e of (name, isArr) \<Rightarrow> map (\<lambda>x. (x, name)) (embedded_list isArr (field doc name)))"
      by (cases e) (simp add: field_delete_field)
  qed
  then show ?thesis unfolding child_list_def by (rule arg_cong)
qed

lemma visit_each_pack:
  assumes "\<And>x name st. (x, name) \<in> set cs \<Longrightarrow>
             forget (applyHierarchy packVisitor (Apply x name ctx) st) = Some (stage_all (nodes x name) st)"
  shows "visit_each packVisitor cs ctx st = Some (stage_all (concat (map (\<lambda>(x, name). nodes x name) cs)) st)"
  using assms
proof (induction cs arbitrary: st)
  case Nil
  then show ?case by simp
next
  case (Cons p cs)
  obtain x name where p: "p = (x, name)" by (cases p)
  have head: "forget (applyHierarchy packVisitor (Apply x name ctx) st) = Some (stage_all (nodes x name) st)"
    using Cons.prems[of x name st] by (simp add: p)
  have tail: "visit_each packVisitor cs ctx st' = Some (stage_all (concat (map (\<lambda>(x, name). nodes x name) cs)) st')"
    for st'
    by (rule Cons.IH) (use Cons.prems in auto)
  have "visit_each packVisitor (p # cs) ctx st
      = and_then (forget (applyHierarchy packVisitor (Apply x name ctx) st))
          (\<lambda>s'. visit_each packVisitor cs ctx s')"
    by (simp add: p and_then_forget)
  also have "\<dots> = Some (stage_all (concat (map (\<lambda>(x, name). nodes x name) (p # cs))) st)"
    unfolding head by (cases "stage_all (nodes x name) st") (simp_all add: p stage_all_append tail)
  finally show ?case .
qed

lemma packDoc_flat:
  "forget (applyHierarchy packVisitor (Apply doc c opts) st) = Some (stage_all (nodes doc c) st)"
proof (induction doc arbitrary: c opts st rule: measure_induct_rule[where f = size])
  case (less doc)
  show ?case
  proof (cases "packVisitor doc c (JObj []) st")
    case (Inl e)
    then have "packVisitor doc c (default_options opts) st = Inl e"
      using packVisitor_options by metis
    with Inl show ?thesis
      by (subst nodes.simps) (simp add: applyHierarchy_Apply)
  next
    case (Inr r)
    obtain doc' no st' where r: "r = (doc', no, st')" by (cases r)
    from Inr r have v: "packVisitor doc c (default_options opts) st = Inr (doc', no, st')"
      using packVisitor_options by metis
    from packVisitor_Inr[OF v] have doc': "doc' = delete_field doc ''_key''"
      and nn: "\<not> nullish doc"
      by (auto simp: getp_def split: if_splits)
    from nn have nn': "\<not> nullish doc'" unfolding doc' by (cases doc) (auto simp: nullish_def)
    have "forget (applyHierarchy packVisitor (Apply doc c opts) st)
        = visit_each packVisitor (child_list (hierarchy_entries c) doc) (nullish_default no) st'"
      using Apply_flat[where fn = packVisitor, OF v nn'] by (simp add: doc' child_list_delete_key)
    also have "\<dots> = Some (stage_all (concat (map (\<lambda>(x, name). nodes x name)
                          (child_list (hierarchy_entries c) doc))) st')"
    proof (rule visit_each_pack)
      fix x name st
      assume "(x, name) \<in> set (child_list (hierarchy_entries c) doc)"
      then have "size x < size doc" by (rule child_size)
      then show "forget (applyHierarchy packVisitor (Apply x name (nullish_default no)) st)
          = Some (stage_all (nodes x name) st)"
        by (rule less)
    qed
    also have "\<dots> = Some (stage_all (nodes doc c) st)"
      by (subst (2) nodes.simps) (simp add: Inr r)
    finally show ?thesis .
  qed
qed

lemma stage_all_batch:
  assumes "stage_all ns st = Inr st'"
  shows "batch st' = batch st @
           map (\<lambda>(d, c). Put (to_string (field d ''_key'')) (json_encode (packed_value d c))) ns"
    and "seenKeys st' = seenKeys st \<union> (\<lambda>(d, c). field d ''_key'') ` set ns"
    and "\<forall>(d, c) \<in> set ns.
           mapHierarchy (delete_field d ''_key'') c (\<lambda>d c. getp d ''_id'') = Inr (packed_value d c)"
  using assms
proof (induction ns arbitrary: st)
  case Nil
  { case 1 then show ?case by simp }
  { case 2 then show ?case by simp }
  { case 3 then show ?case by simp }
next
  case (Cons p ns)
  obtain d c where p: "p = (d, c)" by (cases p)
  { case 1
    then obtain d1 no s1 where v: "packVisitor d c (JObj []) st = Inr (d1, no, s1)"
      and rest: "stage_all ns s1 = Inr st'"
      by (auto simp: p split: sum.splits)
    from packVisitor_Inr[OF v] Cons.IH(1)[OF rest] show ?case
      by (auto simp: p packed_value_def) }
  { case 2
    then obtain d1 no s1 where v: "packVisitor d c (JObj []) st = Inr (d1, no, s1)"
      and rest: "stage_all ns s1 = Inr st'"
      by (auto simp: p split: sum.splits)
    from packVisitor_Inr[OF v] Cons.IH(2)[OF rest] show ?case
      by (auto simp: p) }
  { case 3
    then obtain d1 no s1 where v: "packVisitor d c (JObj []) st = Inr (d1, no, s1)"
      and rest: "stage_all ns s1 = Inr st'"
      by (auto simp: p split: sum.splits)
    from packVisitor_Inr[OF v] Cons.IH(3)[OF rest] show ?case
      by (auto simp: p packed_value_def) }
qed

lemma getp_id_result: "getp x ''_id'' = Inr y \<Longrightarrow> y = field x ''_id''"
  by (auto simp: getp_def split: if_splits)

lemma packed_ids:
  assumes "is_object d"
    and "mapHierarchy (delete_field d ''_key'') c (\<lambda>d c. getp d ''_id'') = Inr v"
    and "(name, isArr) \<in> set (hierarchy_entries c)"
  shows "field v name = resolved (\<lambda>x n. field x ''_id'') isArr name (field d name)"
proof -
  from assms(1) obtain kvs where d: "delete_field d ''_key'' = JObj kvs" by (cases d) auto
  have ok: "\<forall>(n, a) \<in> set (hierarchy_entries c). \<forall>x \<in> set (mapped_values a (field (JObj kvs) n)).
              getp x ''_id'' = Inr (field x ''_id'')"
  proof (clarify)
    fix n a x
    assume "(n, a) \<in> set (hierarchy_entries c)" "x \<in> set (mapped_values a (field (JObj kvs) n))"
    from mapFields_success[OF assms(2)[unfolded d mapHierarchy_def] hierarchy_entries_distinct this]
    obtain y where "getp x ''_id'' = Inr y" by blast
    with getp_id_result[OF this] show "getp x ''_id'' = Inr (field x ''_id'')" by simp
  qed
  from mapFields_values[OF hierarchy_entries_distinct ok] assms(2,3)
  have "field v name = resolved (\<lambda>x n. field x ''_id'') isArr name (field (JObj kvs) name)"
    by (auto simp: d mapHierarchy_def simp del: field.simps)
  moreover have "field (JObj kvs) name = field d name"
    unfolding d[symmetric] using hierarchy_names_not_key[OF assms(3)] by (simp add: field_delete_field)
  ultimately show ?thesis by simp
qed

text \<open>
  C2, amended. Staging a document is staging the nodes of its hierarchy one
  after the other, in pre-order. When it succeeds, every node, embedded nodes included, has
  been put into the batch under its own \<open>_key\<close>, and the value put for a node
  holds ids in the embedded fields that the schema declares: in a collection-valued field
  the \<open>_id\<close> of every element, in a singular field the \<open>_id\<close> of the
  embedded document. When the item of the scenario carries the key \<open>!actors.items!abc.i1\<close>, compiling into an empty store
  yields exactly the two keys \<open>!actors!abc\<close> and \<open>!actors.items!abc.i1\<close>.
\<close>

theorem nodes_staged_under_own_key:
  "forget (packDoc doc collection st) = Some (stage_all (nodes doc collection) st)
   \<and> (\<forall>d' st'. packDoc doc collection st = Some (Inr (d', st')) \<longrightarrow>
         batch st' = batch st @
           map (\<lambda>(d, c). Put (to_string (field d ''_key'')) (json_encode (packed_value d c)))
               (nodes doc collection)
         \<and> (\<forall>(d, c) \<in> set (nodes doc collection).
               mapHierarchy (delete_field d ''_key'') c (\<lambda>d c. getp d ''_id'') = Inr (packed_value d c)
               \<and> (is_object d \<longrightarrow>
                    (\<forall>(name, isArr) \<in> set (hierarchy_entries c).
                       field (packed_value d c) name =
                         (if isArr
                          then (if is_array (field d name)
                                then JArr (map (\<lambda>x. field x ''_id'') (elements (field d name)))
                                else JArr [])
                          else if truthy (field d name) then field (field d name) ''_id''
                               else JNull)))))"
proof (intro conjI allI impI)
  show flat: "forget (packDoc doc collection st) = Some (stage_all (nodes doc collection) st)"
    unfolding packDoc_def by (rule packDoc_flat)
  fix d' st'
  assume "packDoc doc collection st = Some (Inr (d', st'))"
  with flat have run: "stage_all (nodes doc collection) st = Inr st'" by simp
  note staged = stage_all_batch[OF run]
  show "batch st' = batch st @
           map (\<lambda>(d, c). Put (to_string (field d ''_key'')) (json_encode (packed_value d c)))
               (nodes doc collection)"
    by (rule staged(1))
  show "\<forall>(d, c) \<in> set (nodes doc collection).
               mapHierarchy (delete_field d ''_key'') c (\<lambda>d c. getp d ''_id'') = Inr (packed_value d c)
               \<and> (is_object d \<longrightarrow>
                    (\<forall>(name, isArr) \<in> set (hierarchy_entries c).
                       field (packed_value d c) name =
                         (if isArr
                          then (if is_array (field d name)
                                then JArr (map (\<lambda>x. field x ''_id'') (elements (field d name)))
                                else JArr [])
                          else if truthy (field d name) then field (field d name) ''_id''
                               else JNull)))"
  proof (clarify, intro conjI impI ballI)
    fix d c
    assume mem: "(d, c) \<in> set (nodes doc collection)"
    with staged(3)
    show m: "mapHierarchy (delete_field d ''_key'') c (\<lambda>d c. getp d ''_id'') = Inr (packed_value d c)"
      by auto
    fix e
    assume obj: "is_object d" and e: "e \<in> set (hierarchy_entries c)"
    obtain name isArr where ne: "e = (name, isArr)" by (cases e)
    from packed_ids[OF obj m e[unfolded ne]]
    show "case e of (name, isArr) \<Rightarrow>
            field (packed_value d c) name =
              (if isArr
               then (if is_array (field d name)
                     then JArr (map (\<lambda>x. field x ''_id'') (elements (field d name)))
                     else JArr [])
               else if truthy (field d name) then field (field d name) ''_id'' else JNull)"
      by (simp add: ne resolved_def)
  qed
qed

theorem nodes_staged_under_own_key_witness:
  "packDoc keyed_scenario_doc ''actors'' initial_state
     = Some (Inr (JObj [(''_id'', JStr ''abc''), (''name'', JStr ''Hero''),
                        (''items'', JArr [JObj [(''_id'', JStr ''i1''), (''name'', JStr ''Sword'')]])],
                  \<lparr>seenKeys = {JStr ''!actors.items!abc.i1'', JStr ''!actors!abc''},
                   batch = [Put ''!actors!abc''
                              (JObj [(''_id'', JStr ''abc''), (''name'', JStr ''Hero''),
                                     (''items'', JArr [JStr ''i1'']), (''effects'', JArr [])]),
                            Put ''!actors.items!abc.i1''
                              (JObj [(''_id'', JStr ''i1''), (''name'', JStr ''Sword''),
                                     (''effects'', JArr [])])]\<rparr>))
   \<and> nodes keyed_scenario_doc ''actors''
     = [(keyed_scenario_doc, ''actors''),
        (JObj [(''_key'', JStr ''!actors.items!abc.i1''), (''_id'', JStr ''i1''), (''name'', JStr ''Sword'')],
         ''items'')]
   \<and> compileClassicLevel None [\<lparr>path = ''Hero.json'', parsed = Some keyed_scenario_doc\<rparr>] []
     = Some (Inr (Some (''!actors!abc'', ''!actors.items!abc.i1'')),
             [(''!actors!abc'',
               JObj [(''_id'', JStr ''abc''), (''name'', JStr ''Hero''),
                     (''items'', JArr [JStr ''i1'']), (''effects'', JArr [])]),
              (''!actors.items!abc.i1'',
               JObj [(''_id'', JStr ''i1''), (''name'', JStr ''Sword''), (''effects'', JArr [])])])"
proof -
  have run: "packDoc keyed_scenario_doc ''actors'' initial_state
     = Some (Inr (JObj [(''_id'', JStr ''abc''), (''name'', JStr ''Hero''),
                        (''items'', JArr [JObj [(''_id'', JStr ''i1''), (''name'', JStr ''Sword'')]])],
                  \<lparr>seenKeys = {JStr ''!actors.items!abc.i1'', JStr ''!actors!abc''},
                   batch = [Put ''!actors!abc''
                              (JObj [(''_id'', JStr ''abc''), (''name'', JStr ''Hero''),
                                     (''items'', JArr [JStr ''i1'']), (''effects'', JArr [])]),
                            Put ''!actors.items!abc.i1''
                              (JObj [(''_id'', JStr ''i1''), (''name'', JStr ''Sword''),
                                     (''effects'', JArr [])])]\<rparr>))"
    by (simp add: keyed_scenario_doc_def js_simps schema_simps compile_simps walk_simps)
  have ns: "nodes keyed_scenario_doc ''actors''
     = [(keyed_scenario_doc, ''actors''),
        (JObj [(''_key'', JStr ''!actors.items!abc.i1''), (''_id'', JStr ''i1''), (''name'', JStr ''Sword'')],
         ''items'')]"
    by (simp add: nodes.simps keyed_scenario_doc_def child_list_def embedded_list_def schema_simps)
  have all: "compileClassicLevel None [\<lparr>path = ''Hero.json'', parsed = Some keyed_scenario_doc\<rparr>] []
     = Some (Inr (Some (''!actors!abc'', ''!actors.items!abc.i1'')),
             [(''!actors!abc'',
               JObj [(''_id'', JStr ''abc''), (''name'', JStr ''Hero''),
                     (''items'', JArr [JStr ''i1'']), (''effects'', JArr [])]),
              (''!actors.items!abc.i1'',
               JObj [(''_id'', JStr ''i1''), (''name'', JStr ''Sword''), (''effects'', JArr [])])])"
    by (simp add: keyed_scenario_doc_def js_simps schema_simps compile_simps walk_simps)
  from nodes_staged_under_own_key[of keyed_scenario_doc "''actors''" initial_state] run have
    "batch \<lparr>seenKeys = {JStr ''!actors.items!abc.i1'', JStr ''!actors!abc''},
            batch = [Put ''!actors!abc''
                       (JObj [(''_id'', JStr ''abc''), (''name'', JStr ''Hero''),
                              (''items'', JArr [JStr ''i1'']), (''effects'', JArr [])]),
                     Put ''!actors.items!abc.i1''
                       (JObj [(''_id'', JStr ''i1''), (''name'', JStr ''Sword''),
                              (''effects'', JArr [])])]\<rparr>
      = batch initial_state @
          map (\<lambda>(d, c). Put (to_string (field d ''_key'')) (json_encode (packed_value d c)))
              (nodes keyed_scenario_doc ''actors'')"
    by blast
  with run ns all show ?thesis by simp
qed

section \<open>Extraction: primary keys and folders\<close>

lemmas extract_simps = extractClassicLevel_def buildFolders_def extractEntry_def unpackDoc_def
  serializeDocument_def
  unpackVisitor_def child_key_def db_get_def keyJoin_def outputName_def defaultName_def
  run_name_transform_def run_transform_def extension_def folderName_def folderPath_def
  getSafeFilename_def safe_char_def parentPath.simps Let_def

lemma extractEntry_embedded:
  "embedded_key key \<Longrightarrow> extractEntry j dest opts fm db (key, doc) out = Some (Inr out)"
  by (auto simp: embedded_key_def extractEntry_def split: json.splits)

text \<open>
  C4. An entry whose key has a dot in its collection segment is skipped by the
  main pass: the step leaves the files written so far as they are, and the pass over all
  entries of the store is the pass over its primary entries alone. No file is written for
  an embedded key.
\<close>

theorem embedded_keys_skipped:
  "(embedded_key key \<longrightarrow> extractEntry j dest opts fm db (key, doc) out = Some (Inr out))
   \<and> extractEntries j dest opts fm db entries out
     = extractEntries j dest opts fm db (filter (\<lambda>(key, doc). \<not> embedded_key key) entries) out"
proof
  show "embedded_key key \<longrightarrow> extractEntry j dest opts fm db (key, doc) out = Some (Inr out)"
    by (simp add: extractEntry_embedded)
  show "extractEntries j dest opts fm db entries out
     = extractEntries j dest opts fm db (filter (\<lambda>(key, doc). \<not> embedded_key key) entries) out"
  proof (induction entries arbitrary: out)
    case Nil
    then show ?case by simp
  next
    case (Cons e es)
    obtain k d where e: "e = (k, d)" by (cases e)
    show ?case
    proof (cases "embedded_key k")
      case True
      then show ?thesis by (simp add: e extractEntry_embedded Cons.IH)
    next
      case False
      have "extractEntries j dest opts fm db es
          = extractEntries j dest opts fm db (filter (\<lambda>(key, doc). \<not> embedded_key key) es)"
        by (rule ext) (rule Cons.IH)
      then have "and_then m (extractEntries j dest opts fm db es)
          = and_then m (extractEntries j dest opts fm db
                (filter (\<lambda>(key, doc). \<not> embedded_key key) es))" for m
        by (rule arg_cong)
      with False show ?thesis by (simp add: e)
    qed
  qed
qed

theorem embedded_keys_skipped_witness:
  "embedded_key ''!scenes.tokens!s1.t1''
   \<and> extractEntry slash_join ''out'' plain_options [] scene_store
        (''!scenes.tokens!s1.t1'', JObj [(''_id'', JStr ''t1'')]) [] = Some (Inr [])
   \<and> filter (\<lambda>(key, doc). \<not> embedded_key key) scene_store
     = [(''!scenes!s1'', JObj [(''_id'', JStr ''s1''), (''name'', JStr ''Cave''), (''tokens'', JArr [JStr ''t1''])])]"
  using embedded_keys_skipped[of "''!scenes.tokens!s1.t1''" slash_join "''out''" plain_options "[]"
      scene_store "JObj [(''_id'', JStr ''t1'')]" "[]" "[]"]
  by (simp add: embedded_key_def scene_store_def js_simps)

lemma resolveFolders_map_of:
  assumes "resolveFolders j fm es = Some es'"
  shows "map_of es' k
       = (case map_of es k of None \<Rightarrow> None
          | Some e \<Rightarrow> Some (e\<lparr>fpath := the (folderPath j fm e)\<rparr>))"
    and "map_of es k = Some e \<Longrightarrow> folderPath j fm e \<noteq> None"
  using assms
proof (induction es arbitrary: es')
  case Nil
  { case 1 then show ?case by simp }
  { case 2 then show ?case by simp }
next
  case (Cons x xs)
  obtain i f where x: "x = (i, f)" by (cases x)
  { case 1
    then obtain p rest where p: "folderPath j fm f = Some p"
      and rest: "resolveFolders j fm xs = Some rest"
      and es': "es' = (i, f\<lparr>fpath := p\<rparr>) # rest"
      by (auto simp: x split: option.splits)
    from Cons.IH(1)[OF rest] p show ?case by (simp add: es' x) }
  { case 2
    then obtain p rest where p: "folderPath j fm f = Some p"
      and rest: "resolveFolders j fm xs = Some rest"
      by (auto simp: x split: option.splits)
    from 2(1) Cons.IH(2)[OF _ rest] p show ?case by (auto simp: x split: if_splits) }
qed

lemma parentPath_None: "parentPath j fm None p = Some p"
  by (subst parentPath.simps) simp

lemma parentPath_Some:
  "parentPath j fm (Some e) p = parentPath j fm (map_of fm (fparent e)) (j (fname e) p)"
  by (subst parentPath.simps) simp

lemma index_paths:
  assumes "buildFolders j opts db = Some (Inr index)"
    and "map_of index i = Some c"
  shows "(map_of index (fparent c) = None \<longrightarrow> fpath c = fname c)
       \<and> (\<forall>b a. map_of index (fparent c) = Some b \<and> map_of index (fparent b) = Some a
               \<and> map_of index (fparent a) = None
             \<longrightarrow> fpath c = j (fname a) (j (fname b) (fname c)))"
proof -
  from assms obtain fm where res: "resolveFolders j fm fm = Some index"
    by (auto simp: buildFolders_def split: if_splits sum.splits option.splits)
  note look = resolveFolders_map_of[OF res]
  have orig: "\<exists>e0. map_of fm k = Some e0 \<and> fname e0 = fname e \<and> fparent e0 = fparent e
                 \<and> folderPath j fm e0 = Some (fpath e)"
    if "map_of index k = Some e" for k e
    using that look(1)[of k] look(2)[of k] by (auto split: option.splits)
  have none: "map_of fm k = None" if "map_of index k = None" for k
    using that look(1)[of k] by (auto split: option.splits)
  from orig[OF assms(2)] obtain c0 where c0: "fname c0 = fname c" "fparent c0 = fparent c"
    "folderPath j fm c0 = Some (fpath c)" by blast
  have root: "fpath c = fname c" if "map_of index (fparent c) = None"
    using none[OF that] c0 by (simp add: folderPath_def parentPath_None)
  have chain: "fpath c = j (fname a) (j (fname b) (fname c))"
    if b: "map_of index (fparent c) = Some b" and a: "map_of index (fparent b) = Some a"
      and r: "map_of index (fparent a) = None" for a b
  proof -
    from orig[OF b] obtain b0 where b0: "map_of fm (fparent c) = Some b0" "fname b0 = fname b"
      "fparent b0 = fparent b" by blast
    from orig[OF a] obtain a0 where a0: "map_of fm (fparent b) = Some a0" "fname a0 = fname a"
      "fparent a0 = fparent a" by blast
    from none[OF r] have "map_of fm (fparent a) = None" .
    with c0 b0 a0 show ?thesis
      by (simp add: folderPath_def parentPath_Some parentPath_None)
  qed
  from root chain show ?thesis by blast
qed

lemma parentPath_chain:
  "chain_ends n fm p \<Longrightarrow> parentPath j fm (map_of fm p) acc = Some (foldr j (ancestors n fm p) acc)"
proof (induction n arbitrary: p acc)
  case 0
  then show ?case by (simp add: parentPath_None)
next
  case (Suc n)
  show ?case
  proof (cases "map_of fm p")
    case None
    then show ?thesis by (simp add: parentPath_None)
  next
    case (Some e)
    with Suc.prems have "chain_ends n fm (fparent e)" by simp
    from Suc.IH[OF this, of "j (fname e) acc"] Some show ?thesis
      by (simp add: parentPath_Some)
  qed
qed

lemma resolveFolders_total:
  assumes "\<forall>(i, f) \<in> set es. chain_ends n fm (fparent f)"
  shows "resolveFolders j fm es
       = Some (map (\<lambda>(i, f). (i, f\<lparr>fpath := foldr j (ancestors n fm (fparent f)) (fname f)\<rparr>)) es)"
  using assms
proof (induction es)
  case Nil
  then show ?case by simp
next
  case (Cons x xs)
  obtain i f where x: "x = (i, f)" by (cases x)
  from Cons.prems have "chain_ends n fm (fparent f)" by (simp add: x)
  from parentPath_chain[OF this] have "folderPath j fm f = Some (foldr j (ancestors n fm (fparent f)) (fname f))"
    by (simp add: folderPath_def)
  with Cons show ?case by (simp add: x)
qed

lemma ancestors_same:
  assumes "\<And>k. map_option (\<lambda>e. (fname e, fparent e)) (map_of fm' k)
              = map_option (\<lambda>e. (fname e, fparent e)) (map_of fm k)"
  shows "ancestors n fm' p = ancestors n fm p"
proof (induction n arbitrary: p)
  case 0
  then show ?case by simp
next
  case (Suc n)
  from assms[of p] show ?case
    by (cases "map_of fm' p"; cases "map_of fm p") (auto simp: Suc.IH)
qed

lemma map_of_resolved:
  "map_of (map (\<lambda>(i, f). (i, f\<lparr>fpath := g f\<rparr>)) fm) k = map_option (\<lambda>f. f\<lparr>fpath := g f\<rparr>) (map_of fm k)"
  by (induction fm) auto

text \<open>
  C7. When every chain of parent references among the folders of the store ends
  (the ids being strings or other primitive values), the pre-pass returns the folder
  index, and in it the path of a folder joins the display names of its ancestors, from the
  root down, to its own name. So a folder whose parent reference is not in the index has
  its own name as path, and in a chain of three folders the path of the innermost one is
  the name of the outermost, joined to that of the middle one, joined to its own. The
  function that joins two path segments is a parameter.
\<close>

theorem folder_index_paths:
  assumes "folders opts"
    and "collectFolders (transformFolderName opts) db [] = Inr fm"
    and "\<forall>(i, f) \<in> set fm. primitive i"
    and "acyclic_folders n fm"
  shows "\<exists>index. buildFolders j opts db = Some (Inr index)
       \<and> map fst index = map fst fm
       \<and> (\<forall>i c. map_of index i = Some c \<longrightarrow>
             fpath c = foldr j (ancestors n index (fparent c)) (fname c)
             \<and> (map_of index (fparent c) = None \<longrightarrow> fpath c = fname c)
             \<and> (\<forall>b a. map_of index (fparent c) = Some b \<and> map_of index (fparent b) = Some a
                     \<and> map_of index (fparent a) = None
                   \<longrightarrow> fpath c = j (fname a) (j (fname b) (fname c))))"
proof -
  let ?g = "\<lambda>f. foldr j (ancestors n fm (fparent f)) (fname f)"
  let ?index = "map (\<lambda>(i, f). (i, f\<lparr>fpath := ?g f\<rparr>)) fm"
  from assms(4) have "\<forall>(i, f) \<in> set fm. chain_ends n fm (fparent f)"
    by (simp add: acyclic_folders_def)
  from resolveFolders_total[OF this, of j] assms(1,2)
  have built: "buildFolders j opts db = Some (Inr ?index)"
    by (simp add: buildFolders_def)
  have keys: "map fst ?index = map fst fm" by (induction fm) auto
  have same: "ancestors m ?index p = ancestors m fm p" for m p
    by (rule ancestors_same) (simp add: map_of_resolved option.map_comp comp_def)
  have path: "fpath c = foldr j (ancestors n ?index (fparent c)) (fname c)"
    if "map_of ?index i = Some c" for i c
    using that by (auto simp: map_of_resolved same)
  from built keys path index_paths[OF built] show ?thesis by blast
qed

lemma buildFolders_folder_store:
  "buildFolders slash_join (plain_options\<lparr>folders := True\<rparr>) folder_store = Some (Inr folder_index)"
  by (simp add: folder_store_def folder_index_def plain_options_def slash_join_def extract_simps js_simps)

theorem folder_index_paths_witness:
  "collectFolders None folder_store []
     = Inr [(JStr ''a'', \<lparr>fname = ''A_a'', fparent = JNull, fpath = []\<rparr>),
            (JStr ''b'', \<lparr>fname = ''B_b'', fparent = JStr ''a'', fpath = []\<rparr>),
            (JStr ''c'', \<lparr>fname = ''C_c'', fparent = JStr ''b'', fpath = []\<rparr>)]
   \<and> buildFolders slash_join (plain_options\<lparr>folders := True\<rparr>) folder_store = Some (Inr folder_index)
   \<and> map_of folder_index (JStr ''c'')
       = Some \<lparr>fname = ''C_c'', fparent = JStr ''b'', fpath = ''A_a/B_b/C_c''\<rparr>
   \<and> map_of folder_index (JStr ''a'') = Some \<lparr>fname = ''A_a'', fparent = JNull, fpath = ''A_a''\<rparr>
   \<and> slash_join ''A_a'' (slash_join ''B_b'' ''C_c'') = ''A_a/B_b/C_c''"
proof -
  let ?fm = "[(JStr ''a'', \<lparr>fname = ''A_a'', fparent = JNull, fpath = []\<rparr>),
            (JStr ''b'', \<lparr>fname = ''B_b'', fparent = JStr ''a'', fpath = []\<rparr>),
            (JStr ''c'', \<lparr>fname = ''C_c'', fparent = JStr ''b'', fpath = []\<rparr>)]"
  have f: "folders (plain_options\<lparr>folders := True\<rparr>)" by simp
  have c: "collectFolders (transformFolderName (plain_options\<lparr>folders := True\<rparr>)) folder_store [] = Inr ?fm"
    by (simp add: folder_store_def plain_options_def folderName_def run_name_transform_def
          getSafeFilename_def safe_char_def js_simps)
  have i: "\<forall>(i, f) \<in> set ?fm. primitive i"
    by (simp add: primitive_def)
  have a: "acyclic_folders 2 ?fm"
    by (simp add: acyclic_folders_def numeral_2_eq_2)
  from folder_index_paths[OF f c i a, of slash_join] obtain index where
    built: "buildFolders slash_join (plain_options\<lparr>folders := True\<rparr>) folder_store = Some (Inr index)"
    by blast
  have "buildFolders slash_join (plain_options\<lparr>folders := True\<rparr>) folder_store = Some (Inr folder_index)"
    by (rule buildFolders_folder_store)
  moreover have "slash_join ''A_a'' (slash_join ''B_b'' ''C_c'') = ''A_a/B_b/C_c''"
    by (simp add: slash_join_def)
  moreover from c have "collectFolders None folder_store [] = Inr ?fm" by (simp add: plain_options_def)
  ultimately show ?thesis using built by (simp add: folder_index_def)
qed

text \<open>
  Without that condition the pre-pass need not return: two folders that name each other
  as parent keep the walk up the chain going forever.
\<close>

lemma cyclic_folders_never_resolve:
  "buildFolders slash_join (plain_options\<lparr>folders := True\<rparr>) cyclic_store = None"
proof -
  let ?A = "\<lparr>fname = ''A_a'', fparent = JStr ''b'', fpath = []\<rparr>"
  let ?B = "\<lparr>fname = ''B_b'', fparent = JStr ''a'', fpath = []\<rparr>"
  let ?fm = "[(JStr ''a'', ?A), (JStr ''b'', ?B)]"
  have loop: "parent \<noteq> Some ?A \<and> parent \<noteq> Some ?B"
    if "parentPath slash_join ?fm parent p = Some q" for parent p q
  proof -
    have "slash_join = slash_join \<longrightarrow> ?fm = ?fm \<longrightarrow> parent \<noteq> Some ?A \<and> parent \<noteq> Some ?B"
    proof (rule parentPath.raw_induct
        [where P = "\<lambda>j fm parent p q. j = slash_join \<longrightarrow> fm = ?fm \<longrightarrow> parent \<noteq> Some ?A \<and> parent \<noteq> Some ?B",
         OF _ that])
      fix pp :: "(string \<Rightarrow> string \<Rightarrow> string) \<Rightarrow> folders_map \<Rightarrow> folder_entry option \<Rightarrow> string \<Rightarrow> string option"
      fix j :: "string \<Rightarrow> string \<Rightarrow> string" and fm :: folders_map
        and parent :: "folder_entry option" and p q :: string
      assume IH: "\<And>j fm parent p q. pp j fm parent p = Some q \<Longrightarrow>
                    j = slash_join \<longrightarrow> fm = ?fm \<longrightarrow> parent \<noteq> Some ?A \<and> parent \<noteq> Some ?B"
        and body: "(case parent of None \<Rightarrow> Some p
                    | Some e \<Rightarrow> pp j fm (map_of fm (fparent e)) (j (fname e) p)) = Some q"
      show "j = slash_join \<longrightarrow> fm = ?fm \<longrightarrow> parent \<noteq> Some ?A \<and> parent \<noteq> Some ?B"
      proof (intro impI conjI notI)
        assume "j = slash_join" "fm = ?fm" "parent = Some ?A"
        with body have "pp slash_join ?fm (Some ?B) (slash_join ''A_a'' p) = Some q" by simp
        from IH[OF this] show False by simp
      next
        assume "j = slash_join" "fm = ?fm" "parent = Some ?B"
        with body have "pp slash_join ?fm (Some ?A) (slash_join ''B_b'' p) = Some q" by simp
        from IH[OF this] show False by simp
      qed
    qed
    then show ?thesis by simp
  qed
  have "folderPath slash_join ?fm ?A = None"
  proof (cases "folderPath slash_join ?fm ?A")
    case (Some q)
    then have "parentPath slash_join ?fm (Some ?B) ''A_a'' = Some q" by (simp add: folderPath_def)
    from loop[OF this] show ?thesis by simp
  qed simp
  moreover have "collectFolders None cyclic_store [] = Inr ?fm"
    by (simp add: cyclic_store_def folderName_def run_name_transform_def getSafeFilename_def safe_char_def
          js_simps)
  ultimately show ?thesis
    by (simp add: buildFolders_def plain_options_def)
qed

section \<open>Output file names\<close>

text \<open>
  C8, as stated, fails. With the folder index built and the item's folder
  resolving in it, a name supplied by \<open>transformName\<close> is used as it is: the item
  is written to \<open>out/Sword.json\<close>, outside the directory of its folder.
\<close>

theorem transformed_name_not_prefixed:
  "extractClassicLevel slash_join ''out''
     (plain_options\<lparr>folders := True, transformName := Some sword_name\<rparr>)
     [(''!folders!a'', JObj [(''_id'', JStr ''a''), (''name'', JStr ''A''), (''folder'', JNull)]),
      (''!items!x'', JObj [(''_id'', JStr ''x''), (''name'', JStr ''Sword''), (''folder'', JStr ''a'')])]
   = Some (Inr
      [(''out/A_a/_Folder.json'',
        JObj [(''_id'', JStr ''a''), (''name'', JStr ''A''), (''folder'', JNull),
              (''_key'', JStr ''!folders!a'')]),
       (''out/Sword.json'',
        JObj [(''_id'', JStr ''x''), (''name'', JStr ''Sword''), (''folder'', JStr ''a''),
              (''_key'', JStr ''!items!x''), (''effects'', JArr [])])])"
  by (simp add: plain_options_def slash_join_def sword_name_def extract_simps js_simps schema_simps
        walk_simps)

text \<open>
  C8, amended. When the document's folder reference resolves in the index, the
  built-in file name is prefixed with the folder's path, and a non-empty name supplied by
  \<open>transformName\<close>, which receives that path as its context, is used unchanged.
\<close>

theorem folder_prefix_for_default_names:
  assumes "getp doc ''folder'' = Inr ref"
    and "map_of fm ref = Some f"
    and "fpath f \<noteq> []"
  shows "(run_name_transform (transformName opts) doc (Some (fpath f)) = [] \<longrightarrow>
            (\<forall>name. defaultName j opts fm key ident doc = Inr name \<longrightarrow>
               outputName j opts fm key ident doc = Inr (j (fpath f) name)))
       \<and> (run_name_transform (transformName opts) doc (Some (fpath f)) \<noteq> [] \<longrightarrow>
            outputName j opts fm key ident doc
              = Inr (run_name_transform (transformName opts) doc (Some (fpath f))))"
  using assms by (simp add: outputName_def Let_def)

theorem folder_prefix_for_default_names_witness:
  "outputName slash_join (plain_options\<lparr>folders := True\<rparr>) folder_index ''!items!x'' (JStr ''x'')
      (JObj [(''_id'', JStr ''x''), (''name'', JStr ''Sword''), (''folder'', JStr ''c'')])
     = Inr ''A_a/B_b/C_c/Sword_x.json''
   \<and> outputName slash_join (plain_options\<lparr>folders := True, transformName := Some sword_name\<rparr>)
      folder_index ''!items!x'' (JStr ''x'')
      (JObj [(''_id'', JStr ''x''), (''name'', JStr ''Sword''), (''folder'', JStr ''c'')])
     = Inr ''Sword.json''"
proof -
  let ?doc = "JObj [(''_id'', JStr ''x''), (''name'', JStr ''Sword''), (''folder'', JStr ''c'')]"
  let ?f = "\<lparr>fname = ''C_c'', fparent = JStr ''b'', fpath = ''A_a/B_b/C_c''\<rparr>"
  have g: "getp ?doc ''folder'' = Inr (JStr ''c'')" by (simp add: js_simps)
  have m: "map_of folder_index (JStr ''c'') = Some ?f" by (simp add: folder_index_def)
  have p: "fpath ?f \<noteq> []" by simp
  from folder_prefix_for_default_names[OF g m p,
      of "plain_options\<lparr>folders := True\<rparr>" slash_join "''!items!x''" "JStr ''x''"]
    folder_prefix_for_default_names[OF g m p,
      of "plain_options\<lparr>folders := True, transformName := Some sword_name\<rparr>" slash_join
         "''!items!x''" "JStr ''x''"]
  show ?thesis
    by (simp add: plain_options_def slash_join_def sword_name_def folder_index_def extract_simps js_simps)
qed

section \<open>The walker visits the hierarchy in pre-order\<close>

lemma field_visits_pair:
  "field_visits cf doc ctx (name, isArr) =
     (if isArr then concat (map (\<lambda>x. visits cf x name ctx) (elements (field doc name)))
      else if nullish (field doc name) then []
      else visits cf (field doc name) name ctx)"
  by (simp add: field_visits_def)

lemma visits_unfold:
  "visits cf doc collection options =
     (doc, collection, options) #
     concat (map (field_visits cf doc (cf doc collection options)) (hierarchy_entries collection))"
  by (subst visits.simps) (simp add: field_visits_def case_prod_unfold cong: map_cong)

lemma Elems_trace:
  assumes "\<And>x calls. x \<in> set xs \<Longrightarrow>
             applyHierarchy fn (Apply x name ctx) calls
               = Some (Inr (x, calls @ visits cf x name ctx))"
  shows "applyHierarchy fn (Elems xs name ctx) calls
           = Some (Inr (JArr xs, calls @ concat (map (\<lambda>x. visits cf x name ctx) xs)))"
  using assms
proof (induction xs arbitrary: calls)
  case Nil
  then show ?case by (simp add: applyHierarchy_Elems_Nil)
next
  case (Cons x xs)
  from Cons.prems[of x calls] Cons.IH[of "calls @ visits cf x name ctx"] Cons.prems
  show ?case by (simp add: applyHierarchy_Elems_Cons)
qed

lemma put_field_same: "is_object doc \<Longrightarrow> field doc name = v \<Longrightarrow> v \<noteq> JUndefined \<Longrightarrow> put_field doc name v = doc"
proof (cases doc)
  case (JObj kvs)
  assume "field doc name = v" "v \<noteq> JUndefined"
  with JObj have "map_of kvs name = Some v" by (auto split: option.splits)
  then have "AList.update name v kvs = kvs" by (induction kvs) auto
  with JObj show ?thesis by simp
qed auto

lemma Fields_trace:
  assumes obj: "is_object doc"
    and conf: "\<And>name isArr. (name, isArr) \<in> set fs \<Longrightarrow>
             nullish (field doc name) \<or> (if isArr then is_array (field doc name) else is_object (field doc name))"
    and kids: "\<And>name isArr x calls. (name, isArr) \<in> set fs \<Longrightarrow> x \<in> embedded_nodes isArr (field doc name) \<Longrightarrow>
             applyHierarchy fn (Apply x name ctx) calls
               = Some (Inr (x, calls @ visits cf x name ctx))"
  shows "applyHierarchy fn (Fields fs doc ctx) calls
           = Some (Inr (doc, calls @ concat (map (field_visits cf doc ctx) fs)))"
  using conf kids
proof (induction fs arbitrary: calls)
  case Nil
  then show ?case by (simp add: applyHierarchy_Fields_Nil)
next
  case (Cons e rest)
  obtain n a where e: "e = (n, a)" by (cases e)
  have IH: "applyHierarchy fn (Fields rest doc ctx) calls'
           = Some (Inr (doc, calls' @ concat (map (field_visits cf doc ctx) rest)))" for calls'
  proof (rule Cons.IH)
    fix name isArr
    assume "(name, isArr) \<in> set rest"
    then show "nullish (field doc name) \<or> (if isArr then is_array (field doc name) else is_object (field doc name))"
      using Cons.prems(1)[of name isArr] by simp
  next
    fix name isArr x calls
    assume "(name, isArr) \<in> set rest" "x \<in> embedded_nodes isArr (field doc name)"
    then show "applyHierarchy fn (Apply x name ctx) calls
               = Some (Inr (x, calls @ visits cf x name ctx))"
      using Cons.prems(2)[of name isArr x calls] by simp
  qed
  from obj have nn: "\<not> nullish doc" by (cases doc) (auto simp: nullish_def)
  let ?v = "field doc n"
  from Cons.prems(1)[of n a] have c: "nullish ?v \<or> (if a then is_array ?v else is_object ?v)"
    by (simp add: e)
  show ?case
  proof (cases "nullish ?v")
    case True
    then have "\<not> truthy ?v" "\<not> is_array ?v" "elements ?v = []"
      by (auto simp: nullish_def)
    with True nn IH[of calls] show ?thesis
      by (simp add: e applyHierarchy_Fields_Cons embedded_walk_def getp_def field_visits_pair)
  next
    case False
    then have nu: "?v \<noteq> JUndefined" by (simp add: nullish_def)
    show ?thesis
    proof (cases a)
      case True
      with c False have arr: "is_array ?v" by simp
      then have v: "JArr (elements ?v) = ?v" by (cases ?v) auto
      have "applyHierarchy fn (Elems (elements ?v) n ctx) calls
           = Some (Inr (JArr (elements ?v), calls @ concat (map (\<lambda>x. visits cf x n ctx) (elements ?v))))"
      proof (rule Elems_trace)
        fix x calls
        assume "x \<in> set (elements ?v)"
        with True arr have "x \<in> embedded_nodes a ?v" by (simp add: embedded_nodes_def)
        with Cons.prems(2)[of n a x calls]
        show "applyHierarchy fn (Apply x n ctx) calls = Some (Inr (x, calls @ visits cf x n ctx))"
          by (simp add: e)
      qed
      with True arr nn IH put_field_same[OF obj refl nu] v show ?thesis
        by (simp add: e applyHierarchy_Fields_Cons embedded_walk_def getp_def field_visits_pair)
    next
      case F: False
      with c False have ob: "is_object ?v" by simp
      then have t: "truthy ?v" by (cases ?v) auto
      with F have "?v \<in> embedded_nodes a ?v" by (simp add: embedded_nodes_def)
      with Cons.prems(2)[of n a ?v calls]
      have "applyHierarchy fn (Apply ?v n ctx) calls = Some (Inr (?v, calls @ visits cf ?v n ctx))"
        by (simp add: e)
      with F t False nn IH put_field_same[OF obj refl nu] show ?thesis
        by (simp add: e applyHierarchy_Fields_Cons embedded_walk_def getp_def field_visits_pair)
    qed
  qed
qed

lemma visits_child_subset:
  assumes "(name, isArr) \<in> set (hierarchy_entries collection)"
    and "x \<in> embedded_nodes isArr (field doc name)"
    and "nullish (field doc name) \<or> (if isArr then is_array (field doc name) else is_object (field doc name))"
  shows "set (visits cf x name (cf doc collection options)) \<subseteq> set (visits cf doc collection options)"
proof -
  from assms(2,3) have "set (visits cf x name (cf doc collection options))
      \<subseteq> set (field_visits cf doc (cf doc collection options) (name, isArr))"
    by (auto simp: field_visits_pair embedded_nodes_def nullish_def split: if_splits)
  with assms(1) show ?thesis
    by (subst (2) visits_unfold) force
qed

lemma children_conform:
  assumes "node_conforms doc collection"
  shows "children collection doc = child_list (hierarchy_entries collection) doc"
proof -
  have "map (\<lambda>(name, isArr).
                    if isArr then map (\<lambda>x. (x, name)) (elements (field doc name))
                    else if nullish (field doc name) then []
                    else [(field doc name, name)]) (hierarchy_entries collection)
      = map (\<lambda>(name, isArr). map (\<lambda>x. (x, name)) (embedded_list isArr (field doc name)))
          (hierarchy_entries collection)"
  proof (rule map_cong[OF refl])
    fix e assume mem: "e \<in> set (hierarchy_entries collection)"
    obtain name isArr where e: "e = (name, isArr)" by (cases e)
    from assms mem have c: "nullish (field doc name)
        \<or> (if isArr then is_array (field doc name) else is_object (field doc name))"
      by (auto simp: node_conforms_def e)
    have "(if isArr then map (\<lambda>x. (x, name)) (elements (field doc name))
           else if nullish (field doc name) then [] else [(field doc name, name)])
        = map (\<lambda>x. (x, name)) (embedded_list isArr (field doc name))"
      using c by (cases "field doc name"; cases isArr) (auto simp: embedded_list_def nullish_def)
    then show "(case e of (name, isArr) \<Rightarrow>
                    if isArr then map (\<lambda>x. (x, name)) (elements (field doc name))
                    else if nullish (field doc name) then []
                    else [(field doc name, name)])
        = (case e of (name, isArr) \<Rightarrow> map (\<lambda>x. (x, name)) (embedded_list isArr (field doc name)))"
      by (simp add: e)
  qed
  then show ?thesis unfolding children_def child_list_def by (rule arg_cong)
qed

lemma default_options_nullish_default [simp]:
  "default_options (nullish_default v) = nullish_default v"
  by (simp add: default_options_def nullish_default_def nullish_def)

lemma trace_preorder:
  assumes "\<forall>(d, c, x) \<in> set (visits (\<lambda>d c x. nullish_default (cf d c x)) doc collection
                                (default_options options)). node_conforms d c"
  shows "applyHierarchy (tracing cf) (Apply doc collection options) calls
           = Some (Inr (doc, calls @ visits (\<lambda>d c x. nullish_default (cf d c x)) doc collection
                                       (default_options options)))"
  using assms
proof (induction doc arbitrary: collection options calls rule: measure_induct_rule[where f = size])
  case (less doc)
  let ?cf = "\<lambda>d c x. nullish_default (cf d c x)"
  let ?opts = "default_options options"
  let ?ctx = "?cf doc collection ?opts"
  have root: "(doc, collection, ?opts) \<in> set (visits ?cf doc collection ?opts)"
    by (subst visits_unfold) simp
  with less.prems have conf: "node_conforms doc collection" by auto
  from conf have obj: "is_object doc" by (simp add: node_conforms_def)
  have local: "nullish (field doc name) \<or> (if isArr then is_array (field doc name) else is_object (field doc name))"
    if "(name, isArr) \<in> set (hierarchy_entries collection)" for name isArr
    using conf that by (auto simp: node_conforms_def)
  have "applyHierarchy (tracing cf) (Fields (hierarchy_entries collection) doc ?ctx) (calls @ [(doc, collection, ?opts)])
         = Some (Inr (doc, (calls @ [(doc, collection, ?opts)])
                @ concat (map (field_visits ?cf doc ?ctx) (hierarchy_entries collection))))"
  proof (rule Fields_trace[OF obj])
    fix name isArr
    assume "(name, isArr) \<in> set (hierarchy_entries collection)"
    then show "nullish (field doc name) \<or> (if isArr then is_array (field doc name) else is_object (field doc name))"
      by (rule local)
  next
    fix name isArr x calls'
    assume mem: "(name, isArr) \<in> set (hierarchy_entries collection)"
      and x: "x \<in> embedded_nodes isArr (field doc name)"
    from size_embedded_node[OF x] have lt: "size x < size doc" .
    from visits_child_subset[OF mem x local[OF mem], where cf = ?cf and options = ?opts] less.prems
    have sub: "\<forall>(d, c, y) \<in> set (visits ?cf x name (default_options ?ctx)). node_conforms d c"
      by (auto simp del: default_options_nullish_default simp: default_options_nullish_default)
    from less.IH[OF lt sub]
    show "applyHierarchy (tracing cf) (Apply x name ?ctx) calls' = Some (Inr (x, calls' @ visits ?cf x name ?ctx))"
      by simp
  qed
  then show ?case
    by (subst visits_unfold) (simp add: applyHierarchy_Apply tracing_def)
qed

text \<open>
  C5, as stated, fails. The walker hands a child the context that the visitor
  returned for the parent only when that value is neither \<open>undefined\<close> nor
  \<open>null\<close>; otherwise the child receives the empty object. A visitor that
  returns nothing, as the compiler's does, has its calls on the embedded documents made
  with \<open>{}\<close>, where the traversal of the claim lists \<open>undefined\<close>. And a
  document that does not conform to the schema can end the walk with an error before every
  embedded node is visited: after the visit of an element that is \<open>null\<close> the
  walker reads the embedded fields of \<open>null\<close>.
\<close>

theorem child_context_defaulted:
  "applyHierarchy (tracing no_context)
      (Apply (JObj [(''_id'', JStr ''abc''), (''items'', JArr [JObj [(''_id'', JStr ''i1'')]])])
         ''actors'' (JObj [(''depth'', JNum (number 0))])) []
     = Some (Inr (JObj [(''_id'', JStr ''abc''), (''items'', JArr [JObj [(''_id'', JStr ''i1'')]])],
          [(JObj [(''_id'', JStr ''abc''), (''items'', JArr [JObj [(''_id'', JStr ''i1'')]])],
            ''actors'', JObj [(''depth'', JNum (number 0))]),
           (JObj [(''_id'', JStr ''i1'')], ''items'', JObj [])]))
   \<and> visits no_context (JObj [(''_id'', JStr ''abc''), (''items'', JArr [JObj [(''_id'', JStr ''i1'')]])])
        ''actors'' (JObj [(''depth'', JNum (number 0))])
     = [(JObj [(''_id'', JStr ''abc''), (''items'', JArr [JObj [(''_id'', JStr ''i1'')]])],
         ''actors'', JObj [(''depth'', JNum (number 0))]),
        (JObj [(''_id'', JStr ''i1'')], ''items'', JUndefined)]
   \<and> applyHierarchy (tracing no_context)
        (Apply (JObj [(''_id'', JStr ''abc''), (''items'', JArr [JNull, JObj [(''_id'', JStr ''i2'')]])])
           ''actors'' (JObj [])) []
     = Some (Inl TypeError)
   \<and> visits no_context (JObj [(''_id'', JStr ''abc''), (''items'', JArr [JNull, JObj [(''_id'', JStr ''i2'')]])])
        ''actors'' (JObj [])
     = [(JObj [(''_id'', JStr ''abc''), (''items'', JArr [JNull, JObj [(''_id'', JStr ''i2'')]])],
         ''actors'', JObj []),
        (JNull, ''items'', JUndefined),
        (JObj [(''_id'', JStr ''i2'')], ''items'', JUndefined)]"
  by (simp add: walk_simps tracing_def no_context_def js_simps schema_simps visits.simps)

text \<open>
  C5, amended. The visitor is called on the root first, with the context given
  to the walker or the empty object when there is none. When that call fails the walk
  fails with its error; otherwise the walk goes on, in the state that the visitor has left,
  through the embedded nodes of the document as the visitor has left it: every element of a
  collection-valued field in sequence order and the value of a singular field that is
  present and not null, field by field in the order of the schema, each with the context
  that the visitor returned for its parent, or the empty object when that was
  \<open>undefined\<close> or \<open>null\<close>. For a visitor that records its calls the
  record is the pre-order traversal of the hierarchy, and the document is returned
  unchanged; fields that the document lacks raise no error. The documents are those that
  conform to the schema.
\<close>

theorem walker_visits_preorder:
  "(fn doc collection (if options = JUndefined then JObj [] else options) s = Inl e \<longrightarrow>
      applyHierarchy fn (Apply doc collection options) s = Some (Inl e))
   \<and> (fn doc collection (if options = JUndefined then JObj [] else options) s
          = Inr (doc', newOptions, s')
        \<and> node_conforms doc' collection \<longrightarrow>
      forget (applyHierarchy fn (Apply doc collection options) s)
        = visit_each fn (children collection doc') (or_empty newOptions) s')
   \<and> ((\<forall>(d, c, x) \<in> set (visits (\<lambda>d c x. or_empty (cf d c x)) doc collection
                              (if options = JUndefined then JObj [] else options)).
          node_conforms d c) \<longrightarrow>
      applyHierarchy (tracing cf) (Apply doc collection options) calls
        = Some (Inr (doc, calls @ visits (\<lambda>d c x. or_empty (cf d c x)) doc collection
                                    (if options = JUndefined then JObj [] else options))))
   \<and> hd (visits (\<lambda>d c x. or_empty (cf d c x)) doc collection
           (if options = JUndefined then JObj [] else options))
       = (doc, collection, if options = JUndefined then JObj [] else options)"
proof -
  have d: "(if options = JUndefined then JObj [] else options) = default_options options"
    by (simp add: default_options_def)
  have n: "or_empty = nullish_default"
    by (rule ext) (simp add: or_empty_def nullish_default_def nullish_def)
  show ?thesis
    unfolding d n
  proof (intro conjI impI)
    assume "fn doc collection (default_options options) s = Inl e"
    then show "applyHierarchy fn (Apply doc collection options) s = Some (Inl e)"
      by (simp add: applyHierarchy_Apply)
  next
    assume a: "fn doc collection (default_options options) s = Inr (doc', newOptions, s')
          \<and> node_conforms doc' collection"
    then have "\<not> nullish doc'" by (cases doc') (auto simp: node_conforms_def nullish_def)
    from Apply_flat[where fn = fn, OF conjunct1[OF a] this] children_conform[OF conjunct2[OF a]]
    show "forget (applyHierarchy fn (Apply doc collection options) s)
          = visit_each fn (children collection doc') (nullish_default newOptions) s'"
      by simp
  next
    assume "\<forall>(d, c, x) \<in> set (visits (\<lambda>d c x. nullish_default (cf d c x)) doc collection
                                (default_options options)). node_conforms d c"
    then show "applyHierarchy (tracing cf) (Apply doc collection options) calls
          = Some (Inr (doc, calls @ visits (\<lambda>d c x. nullish_default (cf d c x)) doc collection
                                      (default_options options)))"
      by (rule trace_preorder)
  next
    show "hd (visits (\<lambda>d c x. nullish_default (cf d c x)) doc collection (default_options options))
         = (doc, collection, default_options options)"
      by (subst visits_unfold) simp
  qed
qed

theorem walker_visits_preorder_witness:
  "applyHierarchy (tracing parent_context) (Apply hero ''actors'' JUndefined) []
     = Some (Inr (hero,
         [(hero, ''actors'', JObj []),
          (JObj [(''_id'', JStr ''i1''), (''effects'', JArr [JObj [(''_id'', JStr ''e1'')]])],
           ''items'', JObj [(''parent'', JStr ''abc'')]),
          (JObj [(''_id'', JStr ''e1'')], ''effects'', JObj [(''parent'', JStr ''i1'')]),
          (JObj [(''_id'', JStr ''i2'')], ''items'', JObj [(''parent'', JStr ''abc'')])]))
   \<and> applyHierarchy (tracing no_context) (Apply hero ''actors'' JUndefined) []
     = Some (Inr (hero,
         [(hero, ''actors'', JObj []),
          (JObj [(''_id'', JStr ''i1''), (''effects'', JArr [JObj [(''_id'', JStr ''e1'')]])],
           ''items'', JObj []),
          (JObj [(''_id'', JStr ''e1'')], ''effects'', JObj []),
          (JObj [(''_id'', JStr ''i2'')], ''items'', JObj [])]))
   \<and> forget (applyHierarchy packVisitor (Apply keyed_scenario_doc ''actors'' JUndefined) initial_state)
     = visit_each packVisitor
         [(JObj [(''_key'', JStr ''!actors.items!abc.i1''), (''_id'', JStr ''i1''), (''name'', JStr ''Sword'')],
           ''items'')]
         (JObj [])
         \<lparr>seenKeys = {JStr ''!actors!abc''},
          batch = [Put ''!actors!abc''
                     (JObj [(''_id'', JStr ''abc''), (''name'', JStr ''Hero''),
                            (''items'', JArr [JStr ''i1'']), (''effects'', JArr [])])]\<rparr>
   \<and> applyHierarchy packVisitor (Apply JNull ''items'' JUndefined) initial_state = Some (Inl TypeError)"
proof -
  have conf: "node_conforms hero ''actors''"
      "node_conforms (JObj [(''_id'', JStr ''i1''), (''effects'', JArr [JObj [(''_id'', JStr ''e1'')]])]) ''items''"
      "node_conforms (JObj [(''_id'', JStr ''e1'')]) ''effects''"
      "node_conforms (JObj [(''_id'', JStr ''i2'')]) ''items''"
    by (simp_all add: node_conforms_def hero_def schema_simps nullish_def)
  have v1: "visits (\<lambda>d c x. or_empty (parent_context d c x)) hero ''actors'' (JObj [])
      = [(hero, ''actors'', JObj []),
          (JObj [(''_id'', JStr ''i1''), (''effects'', JArr [JObj [(''_id'', JStr ''e1'')]])],
           ''items'', JObj [(''parent'', JStr ''abc'')]),
          (JObj [(''_id'', JStr ''e1'')], ''effects'', JObj [(''parent'', JStr ''i1'')]),
          (JObj [(''_id'', JStr ''i2'')], ''items'', JObj [(''parent'', JStr ''abc'')])]"
    by (simp add: visits.simps hero_def parent_context_def or_empty_def schema_simps js_simps)
  have v2: "visits (\<lambda>d c x. or_empty (no_context d c x)) hero ''actors'' (JObj [])
      = [(hero, ''actors'', JObj []),
          (JObj [(''_id'', JStr ''i1''), (''effects'', JArr [JObj [(''_id'', JStr ''e1'')]])],
           ''items'', JObj []),
          (JObj [(''_id'', JStr ''e1'')], ''effects'', JObj []),
          (JObj [(''_id'', JStr ''i2'')], ''items'', JObj [])]"
    by (simp add: visits.simps hero_def no_context_def or_empty_def schema_simps js_simps)
  let ?doc' = "JObj [(''_id'', JStr ''abc''), (''name'', JStr ''Hero''),
           (''items'', JArr [JObj [(''_key'', JStr ''!actors.items!abc.i1''), (''_id'', JStr ''i1''),
                                   (''name'', JStr ''Sword'')]])]"
  let ?st = "\<lparr>seenKeys = {JStr ''!actors!abc''},
          batch = [Put ''!actors!abc''
                     (JObj [(''_id'', JStr ''abc''), (''name'', JStr ''Hero''),
                            (''items'', JArr [JStr ''i1'']), (''effects'', JArr [])])]\<rparr>"
  have pv: "packVisitor keyed_scenario_doc ''actors'' (JObj []) initial_state
      = Inr (?doc', JUndefined, ?st)"
    by (simp add: keyed_scenario_doc_def js_simps schema_simps compile_simps)
  have pc: "node_conforms ?doc' ''actors''"
    by (simp add: node_conforms_def schema_simps nullish_def)
  have ch: "children ''actors'' ?doc'
      = [(JObj [(''_key'', JStr ''!actors.items!abc.i1''), (''_id'', JStr ''i1''), (''name'', JStr ''Sword'')],
           ''items'')]"
    by (simp add: children_def schema_simps nullish_def)
  have pe: "packVisitor JNull ''items'' (JObj []) initial_state = Inl TypeError"
    by (simp add: js_simps compile_simps)
  have d: "or_empty JUndefined = JObj []"
    by (simp add: or_empty_def)
  from walker_visits_preorder[where fn = packVisitor and doc = hero and collection = "''actors''"
         and options = JUndefined and cf = parent_context and calls = "[]"] conf v1
  have t1: "applyHierarchy (tracing parent_context) (Apply hero ''actors'' JUndefined) []
        = Some (Inr (hero, visits (\<lambda>d c x. or_empty (parent_context d c x)) hero ''actors'' (JObj [])))"
    by (simp add: d)
  from walker_visits_preorder[where fn = packVisitor and doc = hero and collection = "''actors''"
         and options = JUndefined and cf = no_context and calls = "[]"] conf v2
  have t2: "applyHierarchy (tracing no_context) (Apply hero ''actors'' JUndefined) []
        = Some (Inr (hero, visits (\<lambda>d c x. or_empty (no_context d c x)) hero ''actors'' (JObj [])))"
    by (simp add: d)
  from walker_visits_preorder[where fn = packVisitor and doc = keyed_scenario_doc
         and collection = "''actors''" and options = JUndefined and s = initial_state
         and doc' = ?doc' and newOptions = JUndefined and s' = ?st] pv pc
  have t3: "forget (applyHierarchy packVisitor (Apply keyed_scenario_doc ''actors'' JUndefined) initial_state)
        = visit_each packVisitor (children ''actors'' ?doc') (JObj []) ?st"
    by (simp add: d)
  from walker_visits_preorder[where fn = packVisitor and doc = JNull and collection = "''items''"
         and options = JUndefined and s = initial_state and e = TypeError] pe
  have t4: "applyHierarchy packVisitor (Apply JNull ''items'' JUndefined) initial_state = Some (Inl TypeError)"
    by simp
  from t1 t2 t3 t4 show ?thesis unfolding v1 v2 ch by simp
qed

section \<open>Unresolved embedded references\<close>

lemma mapFields_resolve:
  "distinct (map fst es) \<Longrightarrow>
     \<exists>d'. mapFields es (JObj kvs) (\<lambda>e c. Inr (g e c)) = Inr d' \<and> is_object d'
        \<and> (\<forall>(n, a) \<in> set es. field d' n = resolved g a n (field (JObj kvs) n))
        \<and> (\<forall>k. k \<notin> fst ` set es \<longrightarrow> field d' k = field (JObj kvs) k)"
  by (rule mapFields_values) simp_all

lemma mapFields_array: "mapFields es (JArr xs) (\<lambda>e c. Inr (g e c)) = Inr (JArr xs)"
  by (induction es) (auto simp: mapField_def getp_def nullish_def)

lemma embedded_nodes_resolved: "x \<in> embedded_nodes a (resolved g a n v) \<Longrightarrow> \<exists>e. x = g e n"
  by (auto simp: embedded_nodes_def resolved_def split: if_splits)

lemma unpackVisitor_Inr:
  assumes "unpackVisitor db doc c opts u = Inr (doc', no, u')"
  shows "no = JObj [(''sublevelPrefix'', JStr (sub_of opts c)), (''idPrefix'', JStr (ident_of opts doc))]"
    and "(name, isArr) \<in> set (hierarchy_entries c) \<Longrightarrow> x \<in> embedded_nodes isArr (field doc' name)
           \<Longrightarrow> \<exists>e. x = db_get db (child_key (sub_of opts c) (ident_of opts doc) name e)"
proof -
  let ?g = "\<lambda>e n. db_get db (child_key (sub_of opts c) (ident_of opts doc) n e)"
  from assms obtain doc1 where
    set: "setp doc ''_key'' (JStr (''!'' @ sub_of opts c @ ''!'' @ ident_of opts doc)) = Inr doc1"
    and mapped: "mapHierarchy doc1 c (\<lambda>e n. Inr (?g e n)) = Inr doc'"
    and no: "no = JObj [(''sublevelPrefix'', JStr (sub_of opts c)), (''idPrefix'', JStr (ident_of opts doc))]"
    by (auto simp: unpackVisitor_def sub_of_def ident_of_def getp_def Let_def default_options_def
          split: sum.splits if_splits)
  show "no = JObj [(''sublevelPrefix'', JStr (sub_of opts c)), (''idPrefix'', JStr (ident_of opts doc))]"
    by (rule no)
  show "\<exists>e. x = db_get db (child_key (sub_of opts c) (ident_of opts doc) name e)"
    if mem: "(name, isArr) \<in> set (hierarchy_entries c)"
      and x: "x \<in> embedded_nodes isArr (field doc' name)"
  proof (cases doc1)
    case (JObj kvs)
    from mapFields_resolve[OF hierarchy_entries_distinct, of c kvs ?g] mapped JObj mem
    have "field doc' name = resolved ?g isArr name (field (JObj kvs) name)"
      by (auto simp: mapHierarchy_def)
    with x embedded_nodes_resolved[of x isArr ?g name] show ?thesis by auto
  next
    case (JArr xs)
    with mapped have "doc' = JArr xs" by (simp add: mapHierarchy_def mapFields_array)
    with x show ?thesis by (simp add: embedded_nodes_def)
  qed (use set in \<open>cases doc; simp\<close>)+
qed


lemma keyJoin_child:
  "name \<noteq> [] \<Longrightarrow> keyJoin [JStr sub, JStr name] = (if sub = [] then name else sub @ ''.'' @ name)"
  by (simp add: keyJoin_def)

lemma sub_of_child:
  "sub_of (JObj [(''sublevelPrefix'', JStr sub), (''idPrefix'', JStr ident)]) name
     = keyJoin [JStr sub, JStr name]"
  by (simp add: sub_of_def default_options_def)

lemma hierarchy_names_nonempty: "(name, isArr) \<in> set (hierarchy_entries collection) \<Longrightarrow> name \<noteq> []"
  by (auto simp: hierarchy_entries_def HIERARCHY_def split: option.splits if_splits)

lemma fold_max_ge: "(m::nat) \<le> fold max xs m"
proof (induction xs arbitrary: m)
  case Nil
  then show ?case by simp
next
  case (Cons a xs)
  have "m \<le> max a m" by simp
  also have "max a m \<le> fold max xs (max a m)" by (rule Cons.IH)
  finally show ?case by simp
qed

lemma fold_max_mem: "(x::nat) \<in> set xs \<Longrightarrow> x \<le> fold max xs m"
proof (induction xs arbitrary: m)
  case Nil
  then show ?case by simp
next
  case (Cons y ys)
  show ?case
  proof (cases "x = y")
    case True
    have "max y m \<le> fold max ys (max y m)" by (rule fold_max_ge)
    with True show ?thesis by simp
  next
    case False
    with Cons show ?thesis by simp
  qed
qed

lemma length_le_longest: "key \<in> set (db_keys db) \<Longrightarrow> length key \<le> longest db"
  unfolding longest_def by (rule fold_max_mem) simp

lemma db_get_found: "db_get db key \<noteq> JUndefined \<Longrightarrow> key \<in> set (db_keys db)"
  by (auto simp: db_get_def db_keys_def split: option.splits dest: map_of_SomeD intro: rev_image_eqI)

lemma unpackVisitor_undefined: "unpackVisitor db JUndefined c opts u = Inl TypeError"
  by (simp add: unpackVisitor_def getp_def nullish_def Let_def split: sum.splits)

lemma unpack_terminates:
  "\<exists>r. applyHierarchy (unpackVisitor db) (Apply doc c opts) u = Some r"
proof (induction "longest db + 1 - length (sub_of opts c)" arbitrary: doc c opts u rule: less_induct)
  case less
  show ?case
  proof (cases "unpackVisitor db doc c (default_options opts) u")
    case (Inl e)
    then show ?thesis by (simp add: applyHierarchy_Apply)
  next
    case (Inr p)
    obtain doc' no u' where p: "p = (doc', no, u')" by (cases p)
    let ?sub = "sub_of opts c"
    let ?ident = "ident_of opts doc"
    have same: "sub_of (default_options opts) c = ?sub" "ident_of (default_options opts) doc = ?ident"
      by (simp_all add: sub_of_def ident_of_def default_options_def)
    note v = unpackVisitor_Inr[OF Inr[unfolded p], unfolded same]
    let ?ctx = "JObj [(''sublevelPrefix'', JStr ?sub), (''idPrefix'', JStr ?ident)]"
    have ctx: "nullish_default no = ?ctx" by (simp add: v(1) nullish_default_def nullish_def)
    have "\<exists>r. applyHierarchy (unpackVisitor db) (Fields (hierarchy_entries c) doc' ?ctx) u' = Some r"
    proof (rule Fields_terminates[OF hierarchy_entries_distinct])
      fix name isArr x s
      assume mem: "(name, isArr) \<in> set (hierarchy_entries c)"
        and x: "x \<in> embedded_nodes isArr (field doc' name)"
      from v(2)[OF mem x] obtain e where e: "x = db_get db (child_key ?sub ?ident name e)" by blast
      show "\<exists>r. applyHierarchy (unpackVisitor db) (Apply x name ?ctx) s = Some r"
      proof (cases "x = JUndefined")
        case True
        then show ?thesis by (simp add: applyHierarchy_Apply unpackVisitor_undefined)
      next
        case False
        with e have "child_key ?sub ?ident name e \<in> set (db_keys db)" by (simp add: db_get_found)
        then have "length (child_key ?sub ?ident name e) \<le> longest db" by (rule length_le_longest)
        then have bound: "length ?sub + length name + 3 \<le> longest db"
          by (simp add: child_key_def)
        from hierarchy_names_nonempty[OF mem] have ne: "name \<noteq> []" .
        then have "length ?sub < length (sub_of ?ctx name)" "length (sub_of ?ctx name) \<le> length ?sub + length name + 1"
          by (auto simp: sub_of_child keyJoin_child)
        with bound have "longest db + 1 - length (sub_of ?ctx name) < longest db + 1 - length ?sub"
          by arith
        from less[OF this] show ?thesis .
      qed
    qed
    with Inr p ctx show ?thesis by (simp add: applyHierarchy_Apply)
  qed
qed

lemma unpackDoc_terminates: "\<exists>r. unpackDoc db doc collection = Some r"
  unfolding unpackDoc_def by (rule unpack_terminates)

lemma extractEntry_terminates: "\<exists>r. extractEntry j dest opts fm db entry out = Some r"
proof -
  obtain key doc where entry: "entry = (key, doc)" by (cases entry)
  have "\<exists>r. and_then (unpackDoc db doc c) f = Some r"
    if "\<And>x. \<exists>r. f x = Some r" for c and f :: "json \<times> unit \<Rightarrow> (error + written) option"
  proof -
    from unpackDoc_terminates obtain r where r: "unpackDoc db doc c = Some r" by blast
    show ?thesis using r that by (cases r) auto
  qed
  then show ?thesis
    unfolding extractEntry_def entry
    by (auto split: json.splits sum.splits prod.splits verdict.splits)
qed

lemma extractEntries_terminates: "\<exists>r. extractEntries j dest opts fm db entries out = Some r"
proof (induction entries arbitrary: out)
  case Nil
  then show ?case by simp
next
  case (Cons e es)
  from extractEntry_terminates obtain r where r: "extractEntry j dest opts fm db e out = Some r"
    by blast
  show ?case using r Cons.IH by (cases r) auto
qed

lemma extractClassicLevel_terminates:
  "buildFolders j opts db = Some r \<Longrightarrow> \<exists>res. extractClassicLevel j dest opts db = Some res"
  using extractEntries_terminates[of j dest opts _ db db "[]"]
  by (cases r) (auto simp: extractClassicLevel_def)











end
